theory Spec2Isabelle
  imports Main "HOL-Library.Word"
begin

section \<open>The Merkle tree of nil/merkle/merkle.hpp\<close>

text \<open>
  The header builds a fixed-arity hash tree inside a Boost graph
  (\<^verbatim>\<open>adjacency_list<vecS, vecS, bidirectionalS, property<vertex_hash_t, element>>\<close>).
  A vertex is a position in a vector; it stores its out-edges, its in-edges and its
  digest. An edge runs from a child to its parent. Indices are \<^verbatim>\<open>size_t\<close>; every index
  the constructor computes is below twice the number of leaves, which is the size of a
  vector held in memory, so no arithmetic wraps and indices are natural numbers here.
\<close>

subsection \<open>Data\<close>

type_synonym byte = "8 word"

text \<open>\<^verbatim>\<open>element\<close> is the digest type of the hash: an array of \<^verbatim>\<open>element_size\<close> octets.\<close>

type_synonym element = "byte list"

text \<open>
  The source raises nothing. What can go wrong there is the failed assertion of the
  constructor, a remainder by a zero arity, and accesses that nothing checks: an index
  outside a container or the dereference of an end iterator. The last kind is undefined
  behaviour in the source; \<open>Out_of_bounds\<close> marks the place where it happens.
  \<open>IndexOutOfRange\<close> belongs to the proof engine, which is described by the
  specification only.
\<close>

datatype error = Wrong_leafs_number | Division_by_zero | Out_of_bounds | IndexOutOfRange

record stored_vertex =
  m_out_edges :: "nat list"
  m_in_edges :: "nat list"
  m_property :: element

type_synonym graph_t = "stored_vertex list"

record merkle_tree =
  Tree :: graph_t
  leafs :: nat
  len :: nat
  row_count :: nat

subsection \<open>The graph operations the header calls\<close>

text \<open>A fresh vertex has no edges and a value-initialised digest.\<close>

definition new_vertex :: "nat \<Rightarrow> stored_vertex" where
  "new_vertex element_size =
     \<lparr>m_out_edges = [], m_in_edges = [], m_property = replicate element_size 0\<rparr>"

definition add_vertex :: "nat \<Rightarrow> graph_t \<Rightarrow> graph_t" where
  "add_vertex element_size g = g @ [new_vertex element_size]"

text \<open>
  \<^verbatim>\<open>add_edge(u, v, g)\<close> on a vector-backed graph first enlarges the vertex vector to
  \<open>max u v + 1\<close> when one end is beyond it, then appends \<open>v\<close> to the out-edges of \<open>u\<close>
  and \<open>u\<close> to the in-edges of \<open>v\<close>.
\<close>

definition add_edge :: "nat \<Rightarrow> nat \<Rightarrow> nat \<Rightarrow> graph_t \<Rightarrow> graph_t" where
  "add_edge element_size u v g =
     (let g1 = g @ replicate (Suc (max u v) - length g) (new_vertex element_size);
          g2 = g1[u := (g1 ! u)\<lparr>m_out_edges := m_out_edges (g1 ! u) @ [v]\<rparr>]
      in g2[v := (g2 ! v)\<lparr>m_in_edges := m_in_edges (g2 ! v) @ [u]\<rparr>])"

text \<open>\<^verbatim>\<open>hash_map[v] = d\<close>: a write through the property map, unchecked in the source.\<close>

definition put_hash :: "nat \<Rightarrow> element \<Rightarrow> graph_t \<Rightarrow> error + graph_t" where
  "put_hash v d g =
     (if v < length g then Inr (g[v := (g ! v)\<lparr>m_property := d\<rparr>]) else Inl Out_of_bounds)"

text \<open>\<^verbatim>\<open>hash_map[v]\<close> as a read.\<close>

definition get_hash :: "nat \<Rightarrow> graph_t \<Rightarrow> error + element" where
  "get_hash v g = (if v < length g then Inr (m_property (g ! v)) else Inl Out_of_bounds)"

subsection \<open>Row arithmetic of nil/merkle/utilities.hpp\<close>

text \<open>
  Modelled from the spec: \<^verbatim>\<open>get_merkle_tree_row_count\<close> of nil/merkle/utilities.hpp,
  which is not among the sources. The specification gives the row count as the number of
  layers from the leaves to the root, found by dividing the leaf count by the arity until
  it reaches 1 (four rows for 8 leaves of arity 2, three rows for 9 leaves of arity 3).
  The division is the truncating one of the constructor's \<^verbatim>\<open>layer_elements /= Arity\<close>;
  counting stops once a row has at most one element. The specification requires an arity
  of at least 2; for a smaller one the count is 1 here.
\<close>

function get_merkle_tree_row_count :: "nat \<Rightarrow> nat \<Rightarrow> nat" where
  "get_merkle_tree_row_count leaf_count branches =
     (if leaf_count \<le> 1 \<or> branches \<le> 1 then 1
      else 1 + get_merkle_tree_row_count (leaf_count div branches) branches)"
  by pat_completeness auto
termination
  by (relation "measure (\<lambda>(leaf_count, branches). leaf_count)") auto

text \<open>
  Modelled from the spec: \<^verbatim>\<open>get_merkle_tree_len\<close> of nil/merkle/utilities.hpp, which is
  not among the sources. The specification gives the total node count as the sum of the
  element counts of all rows, each row having the count of the row below divided by the
  arity.
\<close>

function get_merkle_tree_len :: "nat \<Rightarrow> nat \<Rightarrow> nat" where
  "get_merkle_tree_len leaf_count branches =
     (if leaf_count \<le> 1 \<or> branches \<le> 1 then leaf_count
      else leaf_count + get_merkle_tree_len (leaf_count div branches) branches)"
  by pat_completeness auto
termination
  by (relation "measure (\<lambda>(leaf_count, branches). leaf_count)") auto

subsection \<open>The constructor\<close>

text \<open>
  A \<^verbatim>\<open>for\<close> loop whose body changes neither its counter nor its bound runs the body
  over the counter values in order; the first failure ends it.
\<close>

fun for_loop :: "nat list \<Rightarrow> (nat \<Rightarrow> 's \<Rightarrow> error + 's) \<Rightarrow> 's \<Rightarrow> error + 's" where
  "for_loop [] body s = Inr s"
| "for_loop (i # js) body s =
     (case body i s of Inl e \<Rightarrow> Inl e | Inr s' \<Rightarrow> for_loop js body s')"

text \<open>
  \<^verbatim>\<open>std::copy(d.begin(), d.end(), new_input.begin() + off)\<close>: the bytes of \<open>d\<close>
  replace those of the buffer from \<open>off\<close> on; nothing checks that they fit.
\<close>

definition copy_into :: "element \<Rightarrow> nat \<Rightarrow> byte list \<Rightarrow> error + byte list" where
  "copy_into d off buf =
     (if off + length d \<le> length buf
      then Inr (take off buf @ d @ drop (off + length d) buf)
      else Inl Out_of_bounds)"

text \<open>
  The innermost loop body, lines 123 to 127: child \<open>i\<close> of \<open>current_element\<close>. The state
  is the input buffer of the hash and the graph.
\<close>

definition child_step ::
  "nat \<Rightarrow> nat \<Rightarrow> nat \<Rightarrow> nat \<Rightarrow> nat \<Rightarrow> nat \<Rightarrow> byte list \<times> graph_t \<Rightarrow> error + byte list \<times> graph_t"
where
  "child_step element_size Arity prev_layer_element start_layer_element current_element i =
     (\<lambda>(new_input, g).
        let children_index =
              (current_element - start_layer_element) * Arity + prev_layer_element + i
        in case get_hash children_index g of
             Inl e \<Rightarrow> Inl e
           | Inr d \<Rightarrow>
               (case copy_into d (i * element_size) new_input of
                  Inl e \<Rightarrow> Inl e
                | Inr new_input' \<Rightarrow>
                    Inr (new_input', add_edge element_size children_index current_element g)))"

text \<open>
  The body of the loop over the elements of a row, lines 118 to 130. The input buffer
  \<^verbatim>\<open>new_input\<close> is an uninitialised array of \<open>element_size * Arity\<close> bytes in the source
  and starts as zeros here; the copies overwrite all of it when every digest has
  \<open>element_size\<close> bytes, as the digest type has.
\<close>

definition element_step ::
  "(byte list \<Rightarrow> element) \<Rightarrow> nat \<Rightarrow> nat \<Rightarrow> byte list list \<Rightarrow> nat \<Rightarrow> nat \<Rightarrow> nat \<Rightarrow> nat \<Rightarrow>
   graph_t \<Rightarrow> error + graph_t"
where
  "element_step H element_size Arity data row_number prev_layer_element start_layer_element
       current_element g =
     (if row_number = 0 then
        (if current_element < length data
         then put_hash current_element (H (data ! current_element)) g
         else Inl Out_of_bounds)
      else
        (case for_loop [0..<Arity]
                (child_step element_size Arity prev_layer_element start_layer_element
                   current_element)
                (replicate (element_size * Arity) 0, g) of
           Inl e \<Rightarrow> Inl e
         | Inr (new_input, g') \<Rightarrow> put_hash current_element (H new_input) g'))"

text \<open>
  The body of the loop over the rows, lines 116 to 134. The state is
  \<open>(prev_layer_element, start_layer_element, layer_elements, Tree)\<close>.
\<close>

definition row_step ::
  "(byte list \<Rightarrow> element) \<Rightarrow> nat \<Rightarrow> nat \<Rightarrow> byte list list \<Rightarrow> nat \<Rightarrow>
   nat \<times> nat \<times> nat \<times> graph_t \<Rightarrow> error + nat \<times> nat \<times> nat \<times> graph_t"
where
  "row_step H element_size Arity data row_number =
     (\<lambda>(prev_layer_element, start_layer_element, layer_elements, g).
        case for_loop [start_layer_element..<start_layer_element + layer_elements]
               (element_step H element_size Arity data row_number prev_layer_element
                  start_layer_element) g of
          Inl e \<Rightarrow> Inl e
        | Inr g' \<Rightarrow>
            Inr (start_layer_element, start_layer_element + layer_elements,
                 layer_elements div Arity, g'))"

text \<open>
  The constructor, lines 103 to 136, for the hash \<open>H\<close>, the digest size and the arity
  that the template fixes. A leaf is the byte array handed to the hash. The assertion is
  taken as enabled: its failure ends the construction with \<open>Wrong_leafs_number\<close>, its
  message. With an arity of 0 the remainder itself is undefined.
\<close>

definition MerkleTree ::
  "(byte list \<Rightarrow> element) \<Rightarrow> nat \<Rightarrow> nat \<Rightarrow> byte list list \<Rightarrow> error + merkle_tree"
where
  "MerkleTree H element_size Arity data =
     (if Arity = 0 then Inl Division_by_zero
      else if length data mod Arity \<noteq> 0 then Inl Wrong_leafs_number
      else
        let n = length data;
            l = get_merkle_tree_len n Arity;
            rc = get_merkle_tree_row_count n Arity;
            g0 = (add_vertex element_size ^^ l) []
        in case for_loop [0..<rc] (row_step H element_size Arity data) (0, 0, n, g0) of
             Inl e \<Rightarrow> Inl e
           | Inr (prev_layer_element, start_layer_element, layer_elements, g) \<Rightarrow>
               Inr \<lparr>Tree = g, leafs = n, len = l, row_count = rc\<rparr>)"

subsection \<open>The queries\<close>

text \<open>
  \<^verbatim>\<open>children\<close>, lines 138 to 146: an array of \<open>Arity\<close> indices, filled from the in-edges
  in their order. An entry that no in-edge fills stays uninitialised (\<open>None\<close>); more
  in-edges than entries would write beyond the array.
\<close>

definition children :: "nat \<Rightarrow> merkle_tree \<Rightarrow> nat \<Rightarrow> error + nat option list" where
  "children Arity t leaf_index =
     (if leaf_index < length (Tree t) then
        (let srcs = m_in_edges (Tree t ! leaf_index)
         in if length srcs \<le> Arity
            then Inr (map Some srcs @ replicate (Arity - length srcs) None)
            else Inl Out_of_bounds)
      else Inl Out_of_bounds)"

text \<open>
  \<^verbatim>\<open>parent\<close>, lines 148 to 152: the target of the first out-edge. The source dereferences
  the begin iterator of the out-edges whether or not there is one.
\<close>

definition parent :: "merkle_tree \<Rightarrow> nat \<Rightarrow> error + nat" where
  "parent t leaf_index =
     (if leaf_index < length (Tree t) then
        (case m_out_edges (Tree t ! leaf_index) of
           [] \<Rightarrow> Inl Out_of_bounds
         | p # _ \<Rightarrow> Inr p)
      else Inl Out_of_bounds)"

text \<open>
  \<^verbatim>\<open>root\<close>, lines 154 to 156: \<^verbatim>\<open>hash_map[len - 1]\<close>. For \<open>len = 0\<close> the index wraps to
  the largest \<^verbatim>\<open>size_t\<close>, which is outside every graph.
\<close>

definition root :: "merkle_tree \<Rightarrow> error + element" where
  "root t = (if 0 < len t then get_hash (len t - 1) (Tree t) else Inl Out_of_bounds)"

text \<open>
  \<^verbatim>\<open>hash_path\<close>, lines 158 to 168. The loop follows the first adjacent vertex (the target
  of the first out-edge) until a vertex has none; \<open>adj\<close> is the range \<open>[ai, a_end)\<close>.
  On a graph with a cycle the loop does not return, which is the value \<open>None\<close>.
\<close>

partial_function (option) hash_path_loop ::
  "graph_t \<Rightarrow> nat list \<Rightarrow> element list \<Rightarrow> (error + element list) option"
where
  "hash_path_loop g adj res =
     (case adj of
        [] \<Rightarrow> Some (Inr res)
      | v # _ \<Rightarrow>
          if v < length g
          then hash_path_loop g (m_out_edges (g ! v)) (res @ [m_property (g ! v)])
          else Some (Inl Out_of_bounds))"

declare hash_path_loop.simps [code]

definition hash_path :: "merkle_tree \<Rightarrow> nat \<Rightarrow> (error + element list) option" where
  "hash_path t leaf_index =
     (if leaf_index < length (Tree t)
      then hash_path_loop (Tree t) (m_out_edges (Tree t ! leaf_index))
             [m_property (Tree t ! leaf_index)]
      else Some (Inl Out_of_bounds))"

text \<open>
  \<^verbatim>\<open>operator[]\<close>, lines 170 to 172, returns a reference to the stored digest, not a copy:
  the caller can read through it (\<open>index_read\<close>) and assign through it
  (\<open>index_assign\<close>, the statement \<^verbatim>\<open>tree[idx] = d\<close>).
\<close>

definition index_read :: "merkle_tree \<Rightarrow> nat \<Rightarrow> error + element" where
  "index_read t idx = get_hash idx (Tree t)"

definition index_assign :: "merkle_tree \<Rightarrow> nat \<Rightarrow> element \<Rightarrow> error + merkle_tree" where
  "index_assign t idx d =
     (case put_hash idx d (Tree t) of Inl e \<Rightarrow> Inl e | Inr g \<Rightarrow> Inr (t\<lparr>Tree := g\<rparr>))"

definition get_row_count :: "merkle_tree \<Rightarrow> nat" where
  "get_row_count t = row_count t"

definition get_len :: "merkle_tree \<Rightarrow> nat" where
  "get_len t = len t"

definition get_leafs :: "merkle_tree \<Rightarrow> nat" where
  "get_leafs t = leafs t"

subsection \<open>The proof engine of nil/merkle/proof.hpp\<close>

text \<open>
  The parent chain of the specification: start at a node and follow \<open>parent\<close> until a
  node has none. The fuel bounds the number of steps; a chain without a repeated node has
  at most \<open>len\<close> of them.
\<close>

fun parent_chain :: "nat \<Rightarrow> merkle_tree \<Rightarrow> nat \<Rightarrow> nat list" where
  "parent_chain 0 t v = [v]"
| "parent_chain (Suc fuel) t v =
     (case parent t v of Inl e \<Rightarrow> [v] | Inr p \<Rightarrow> v # parent_chain fuel t p)"

text \<open>
  Modelled from the spec: \<^verbatim>\<open>MerkleProof::validate\<close> of nil/merkle/proof.hpp, which is not
  among the sources. The specification hashes the claimed element, compares the result
  with the digest stored at the leaf, and returns true only if they are equal and the
  recorded parent chain of the leaf reaches the root, the node \<open>len - 1\<close>.
\<close>

definition validate ::
  "(byte list \<Rightarrow> element) \<Rightarrow> merkle_tree \<Rightarrow> nat \<Rightarrow> byte list \<Rightarrow> error + bool"
where
  "validate H t leafIndex claimedElement =
     (if leafIndex < leafs t then
        (case index_read t leafIndex of
           Inl e \<Rightarrow> Inl e
         | Inr d \<Rightarrow>
             Inr (H claimedElement = d \<and> 0 < len t \<and>
                  last (parent_chain (len t) t leafIndex) = len t - 1))
      else Inl IndexOutOfRange)"

subsection \<open>Rows\<close>

text \<open>
  The values of the constructor's \<^verbatim>\<open>layer_elements\<close> and \<^verbatim>\<open>start_layer_element\<close> at
  the start of row \<open>r\<close>, for \<open>n\<close> leaves and arity \<open>A\<close>: the number of elements of the
  row and the index of its first element.
\<close>

primrec layer_size :: "nat \<Rightarrow> nat \<Rightarrow> nat \<Rightarrow> nat" where
  "layer_size n A 0 = n"
| "layer_size n A (Suc r) = layer_size n A r div A"

primrec rowStart :: "nat \<Rightarrow> nat \<Rightarrow> nat \<Rightarrow> nat" where
  "rowStart n A 0 = 0"
| "rowStart n A (Suc r) = rowStart n A r + layer_size n A r"

subsection \<open>What one element of the constructor's loop changes\<close>

text \<open>
  Processing the element \<open>cur\<close> with the children \<open>cb, \<dots>, cb + m - 1\<close> stores the
  digest \<open>d\<close> at \<open>cur\<close>, appends the children to the in-edges of \<open>cur\<close> and appends
  \<open>cur\<close> to the out-edges of each child.
\<close>

definition elem_effect :: "nat \<Rightarrow> nat \<Rightarrow> nat \<Rightarrow> element \<Rightarrow> graph_t \<Rightarrow> graph_t \<Rightarrow> bool" where
  "elem_effect cur cb m d g g' \<longleftrightarrow>
     length g' = length g \<and>
     (\<forall>w<length g.
        m_property (g' ! w) = (if w = cur then d else m_property (g ! w)) \<and>
        m_in_edges (g' ! w) =
          (if w = cur then m_in_edges (g ! w) @ map (\<lambda>i. cb + i) [0..<m] else m_in_edges (g ! w)) \<and>
        m_out_edges (g' ! w) =
          (if cb \<le> w \<and> w < cb + m then m_out_edges (g ! w) @ [cur] else m_out_edges (g ! w)))"

text \<open>
  The state of the graph once the elements below \<open>c\<close> are processed, for the element
  at position \<open>k\<close> of row \<open>r\<close>: its digest, its in-edges, and its out-edge, which exists
  once its parent is processed. The vertices from \<open>c\<close> on have no edges yet.
\<close>

definition inv_digest ::
  "(byte list \<Rightarrow> element) \<Rightarrow> nat \<Rightarrow> byte list list \<Rightarrow> nat \<Rightarrow> graph_t \<Rightarrow> bool" where
  "inv_digest H A data c g \<longleftrightarrow>
     (\<forall>r k. k < layer_size (length data) A r \<and> rowStart (length data) A r + k < c \<longrightarrow>
        m_property (g ! (rowStart (length data) A r + k)) =
          (if r = 0 then H (data ! k)
           else H (concat (map (\<lambda>i. m_property
                 (g ! (rowStart (length data) A (r - 1) + k * A + i))) [0..<A]))))"

definition inv_in :: "nat \<Rightarrow> nat \<Rightarrow> nat \<Rightarrow> graph_t \<Rightarrow> bool" where
  "inv_in n A c g \<longleftrightarrow>
     (\<forall>r k. k < layer_size n A r \<and> rowStart n A r + k < c \<longrightarrow>
        m_in_edges (g ! (rowStart n A r + k)) =
          (if r = 0 then [] else map (\<lambda>i. rowStart n A (r - 1) + k * A + i) [0..<A])) \<and>
     (\<forall>v. c \<le> v \<and> v < length g \<longrightarrow> m_in_edges (g ! v) = [])"

definition inv_out :: "nat \<Rightarrow> nat \<Rightarrow> nat \<Rightarrow> graph_t \<Rightarrow> bool" where
  "inv_out n A c g \<longleftrightarrow>
     (\<forall>r k. k < layer_size n A r \<and> rowStart n A r + k < c \<longrightarrow>
        m_out_edges (g ! (rowStart n A r + k)) =
          (if k div A < layer_size n A (Suc r) \<and> rowStart n A (Suc r) + k div A < c
           then [rowStart n A (Suc r) + k div A] else [])) \<and>
     (\<forall>v. c \<le> v \<and> v < length g \<longrightarrow> m_out_edges (g ! v) = [])"

definition tree_inv ::
  "(byte list \<Rightarrow> element) \<Rightarrow> nat \<Rightarrow> byte list list \<Rightarrow> nat \<Rightarrow> graph_t \<Rightarrow> bool" where
  "tree_inv H A data c g \<longleftrightarrow>
     inv_digest H A data c g \<and> inv_in (length data) A c g \<and> inv_out (length data) A c g"

subsection \<open>A small hash and small inputs\<close>

text \<open>
  Any function from byte sequences to digests of one size can stand for the hash. This
  one has one-byte digests and depends on every byte and on the order of the bytes.
\<close>

definition toy_hash :: "byte list \<Rightarrow> element" where
  "toy_hash bs = [foldl (\<lambda>a b. 3 * a + b + 1) 7 bs]"

definition leaves2 :: "byte list list" where
  "leaves2 = [[0x30], [0x31]]"

definition leaves4 :: "byte list list" where
  "leaves4 = [[0x30], [0x31], [0x32], [0x33]]"

definition leaves6 :: "byte list list" where
  "leaves6 = [[0x30], [0x31], [0x32], [0x33], [0x34], [0x35]]"

definition leaves8 :: "byte list list" where
  "leaves8 = [[0x30], [0x31], [0x32], [0x33], [0x34], [0x35], [0x36], [0x37]]"

definition leaves9 :: "byte list list" where
  "leaves9 = [[0x30], [0x31], [0x32], [0x33], [0x34], [0x35], [0x36], [0x37], [0x38]]"

text \<open>\<open>leaves6\<close> with other bytes in its last two leaves.\<close>

definition leaves6_other :: "byte list list" where
  "leaves6_other = [[0x30], [0x31], [0x32], [0x33], [0x41], [0x42]]"

text \<open>
  The trees that the constructor returns for \<open>leaves2\<close>, \<open>leaves4\<close>, \<open>leaves6\<close> and
  \<open>leaves6_other\<close> with this hash and the arity 2, and the first of them after
  \<^verbatim>\<open>tree[2] = {0}\<close>.
\<close>

definition tree2 :: merkle_tree where
  "tree2 =
    \<lparr>Tree = [\<lparr>m_out_edges = [2], m_in_edges = [], m_property = [70]\<rparr>,
             \<lparr>m_out_edges = [2], m_in_edges = [], m_property = [71]\<rparr>,
             \<lparr>m_out_edges = [], m_in_edges = [0, 1], m_property = [92]\<rparr>],
      leafs = 2, len = 3, row_count = 2\<rparr>"

definition tree2_overwritten :: merkle_tree where
  "tree2_overwritten =
    \<lparr>Tree = [\<lparr>m_out_edges = [2], m_in_edges = [], m_property = [70]\<rparr>,
             \<lparr>m_out_edges = [2], m_in_edges = [], m_property = [71]\<rparr>,
             \<lparr>m_out_edges = [], m_in_edges = [0, 1], m_property = [0]\<rparr>],
      leafs = 2, len = 3, row_count = 2\<rparr>"

definition tree4 :: merkle_tree where
  "tree4 =
    \<lparr>Tree = [\<lparr>m_out_edges = [4], m_in_edges = [], m_property = [70]\<rparr>,
             \<lparr>m_out_edges = [4], m_in_edges = [], m_property = [71]\<rparr>,
             \<lparr>m_out_edges = [5], m_in_edges = [], m_property = [72]\<rparr>,
             \<lparr>m_out_edges = [5], m_in_edges = [], m_property = [73]\<rparr>,
             \<lparr>m_out_edges = [6], m_in_edges = [0, 1], m_property = [92]\<rparr>,
             \<lparr>m_out_edges = [6], m_in_edges = [2, 3], m_property = [100]\<rparr>,
             \<lparr>m_out_edges = [], m_in_edges = [4, 5], m_property = [187]\<rparr>],
      leafs = 4, len = 7, row_count = 3\<rparr>"

definition tree6 :: merkle_tree where
  "tree6 =
    \<lparr>Tree = [\<lparr>m_out_edges = [6], m_in_edges = [], m_property = [70]\<rparr>,
             \<lparr>m_out_edges = [6], m_in_edges = [], m_property = [71]\<rparr>,
             \<lparr>m_out_edges = [7], m_in_edges = [], m_property = [72]\<rparr>,
             \<lparr>m_out_edges = [7], m_in_edges = [], m_property = [73]\<rparr>,
             \<lparr>m_out_edges = [8], m_in_edges = [], m_property = [74]\<rparr>,
             \<lparr>m_out_edges = [8], m_in_edges = [], m_property = [75]\<rparr>,
             \<lparr>m_out_edges = [9], m_in_edges = [0, 1], m_property = [92]\<rparr>,
             \<lparr>m_out_edges = [9], m_in_edges = [2, 3], m_property = [100]\<rparr>,
             \<lparr>m_out_edges = [], m_in_edges = [4, 5], m_property = [108]\<rparr>,
             \<lparr>m_out_edges = [], m_in_edges = [6, 7], m_property = [187]\<rparr>],
      leafs = 6, len = 10, row_count = 3\<rparr>"

definition tree6_other :: merkle_tree where
  "tree6_other =
    \<lparr>Tree = [\<lparr>m_out_edges = [6], m_in_edges = [], m_property = [70]\<rparr>,
             \<lparr>m_out_edges = [6], m_in_edges = [], m_property = [71]\<rparr>,
             \<lparr>m_out_edges = [7], m_in_edges = [], m_property = [72]\<rparr>,
             \<lparr>m_out_edges = [7], m_in_edges = [], m_property = [73]\<rparr>,
             \<lparr>m_out_edges = [8], m_in_edges = [], m_property = [87]\<rparr>,
             \<lparr>m_out_edges = [8], m_in_edges = [], m_property = [88]\<rparr>,
             \<lparr>m_out_edges = [9], m_in_edges = [0, 1], m_property = [92]\<rparr>,
             \<lparr>m_out_edges = [9], m_in_edges = [2, 3], m_property = [100]\<rparr>,
             \<lparr>m_out_edges = [], m_in_edges = [4, 5], m_property = [160]\<rparr>,
             \<lparr>m_out_edges = [], m_in_edges = [6, 7], m_property = [187]\<rparr>],
      leafs = 6, len = 10, row_count = 3\<rparr>"

section \<open>The constructor establishes the tree\<close>

declare get_merkle_tree_row_count.simps [simp del]
declare get_merkle_tree_len.simps [simp del]

lemma for_loop_append:
  "for_loop (xs @ ys) body s =
     (case for_loop xs body s of Inl e \<Rightarrow> Inl e | Inr s' \<Rightarrow> for_loop ys body s')"
  by (induction xs arbitrary: s) (auto split: sum.splits)

lemma for_loop_invariant:
  assumes "a \<le> b" and "I a s"
    and step: "\<And>i s. a \<le> i \<Longrightarrow> i < b \<Longrightarrow> I i s \<Longrightarrow> \<exists>s'. body i s = Inr s' \<and> I (Suc i) s'"
  shows "\<exists>s'. for_loop [a..<b] body s = Inr s' \<and> I b s'"
  using assms(1) step
proof (induction b rule: dec_induct)
  case base
  then show ?case using assms(2) by simp
next
  case (step n)
  from step.IH step.prems obtain s1 where s1: "for_loop [a..<n] body s = Inr s1" "I n s1"
    by (metis less_Suc_eq)
  from step.prems[of n s1] step.hyps s1 obtain s2 where "body n s1 = Inr s2" "I (Suc n) s2"
    by auto
  with s1 step.hyps show ?case
    by (simp add: for_loop_append)
qed

lemma layer_size_shift: "layer_size n A (Suc r) = layer_size (n div A) A r"
  by (induction r) simp_all

lemma rowStart_shift: "rowStart n A (Suc r) = n + rowStart (n div A) A r"
proof (induction r)
  case 0
  show ?case by simp
next
  case (Suc r)
  have "rowStart n A (Suc (Suc r)) = rowStart n A (Suc r) + layer_size n A (Suc r)"
    by simp
  also have "\<dots> = n + rowStart (n div A) A r + layer_size (n div A) A r"
    by (simp only: Suc.IH layer_size_shift)
  finally show ?case by simp
qed

lemma rowStart_mono: "r \<le> r' \<Longrightarrow> rowStart n A r \<le> rowStart n A r'"
  by (induction r' rule: dec_induct) simp_all

lemma rowStart_inj:
  assumes "k < layer_size n A r" "k' < layer_size n A r'"
    and "rowStart n A r + k = rowStart n A r' + k'"
  shows "r = r' \<and> k = k'"
proof -
  have *: False if "r1 < r2" "k1 < layer_size n A r1" "rowStart n A r1 + k1 = rowStart n A r2 + k2"
    for r1 r2 k1 k2
  proof -
    have "rowStart n A (Suc r1) \<le> rowStart n A r2"
      using that(1) by (intro rowStart_mono) simp
    with that show False by simp
  qed
  have "r = r'"
    using *[of r r' k k'] *[of r' r k' k] assms by (metis linorder_neqE_nat)
  with assms show ?thesis by simp
qed

lemma rowStart_decomp:
  "v < rowStart n A R \<Longrightarrow> \<exists>r k. r < R \<and> k < layer_size n A r \<and> v = rowStart n A r + k"
proof (induction R)
  case 0
  then show ?case by simp
next
  case (Suc R)
  show ?case
  proof (cases "v < rowStart n A R")
    case True
    with Suc.IH show ?thesis by (metis less_Suc_eq)
  next
    case False
    with Suc.prems have "v - rowStart n A R < layer_size n A R" "v = rowStart n A R + (v - rowStart n A R)"
      by simp_all
    then show ?thesis by blast
  qed
qed

lemma len_rowStart:
  "get_merkle_tree_len n A = rowStart n A (get_merkle_tree_row_count n A)"
proof (induction n A rule: get_merkle_tree_row_count.induct)
  case (1 n A)
  show ?case
  proof (cases "n \<le> 1 \<or> A \<le> 1")
    case True
    then show ?thesis
      by (simp add: get_merkle_tree_len.simps[of n A] get_merkle_tree_row_count.simps[of n A])
  next
    case False
    with 1 have IH: "get_merkle_tree_len (n div A) A
        = rowStart (n div A) A (get_merkle_tree_row_count (n div A) A)"
      by simp
    from False show ?thesis
      by (simp add: get_merkle_tree_len.simps[of n A] get_merkle_tree_row_count.simps[of n A]
          rowStart_shift IH del: rowStart.simps)
  qed
qed

lemma child_in_row:
  assumes "K < x div A" "i < A"
  shows "K * A + i < (x::nat)"
proof -
  have "K * A + i < Suc K * A" using assms(2) by simp
  also have "\<dots> \<le> (x div A) * A" using assms(1) by (intro mult_le_mono1) simp
  also have "\<dots> \<le> x" by simp
  finally show ?thesis .
qed

lemma add_edge_length:
  "u < length g \<Longrightarrow> v < length g \<Longrightarrow> length (add_edge esz u v g) = length g"
  by (simp add: add_edge_def Let_def)

lemma add_edge_nth:
  assumes "u < length g" "v < length g" "u \<noteq> v" "w < length g"
  shows "m_property (add_edge esz u v g ! w) = m_property (g ! w)"
    and "m_in_edges (add_edge esz u v g ! w) =
           (if w = v then m_in_edges (g ! w) @ [u] else m_in_edges (g ! w))"
    and "m_out_edges (add_edge esz u v g ! w) =
           (if w = u then m_out_edges (g ! w) @ [v] else m_out_edges (g ! w))"
  using assms by (simp_all add: add_edge_def Let_def nth_list_update)

lemma child_loop_effect:
  assumes cur: "cb + A \<le> cur" "cur < length g"
    and cb: "cb = (cur - start) * A + prev"
    and sz: "\<forall>i<A. length (m_property (g ! (cb + i))) = esz"
    and buf: "length buf0 = esz * A"
  shows "\<exists>g'. for_loop [0..<A] (child_step esz A prev start cur) (buf0, g)
           = Inr (concat (map (\<lambda>i. m_property (g ! (cb + i))) [0..<A]), g')
         \<and> elem_effect cur cb A (m_property (g ! cur)) g g'"
proof -
  define I where "I = (\<lambda>m (s :: byte list \<times> graph_t).
      m \<le> A \<and> fst s = concat (map (\<lambda>i. m_property (g ! (cb + i))) [0..<m]) @ drop (m * esz) buf0
      \<and> elem_effect cur cb m (m_property (g ! cur)) g (snd s))"
  have I0: "I 0 (buf0, g)"
    by (auto simp: I_def elem_effect_def)
  have lenC: "length (concat (map (\<lambda>i. m_property (g ! (cb + i))) [0..<m])) = m * esz" if "m \<le> A" for m
    using that sz by (induction m) simp_all
  have step: "\<exists>s'. child_step esz A prev start cur i s = Inr s' \<and> I (Suc i) s'"
    if "i < A" "I i s" for i s
  proof -
    obtain b g1 where s: "s = (b, g1)" by (cases s)
    from that(2) have b: "b = concat (map (\<lambda>i. m_property (g ! (cb + i))) [0..<i]) @ drop (i * esz) buf0"
      and eff: "elem_effect cur cb i (m_property (g ! cur)) g g1"
      by (simp_all add: I_def s)
    from eff have len1: "length g1 = length g" by (simp add: elem_effect_def)
    have ci: "cb + i < length g" "cb + i \<noteq> cur" using cur that(1) by simp_all
    have p1: "m_property (g1 ! (cb + i)) = m_property (g ! (cb + i))"
      using eff ci by (simp add: elem_effect_def)
    have dl: "length (m_property (g ! (cb + i))) = esz" using sz that(1) by simp
    have lb: "length b = esz * A"
      using that(1) buf by (simp add: b lenC)
    have fit: "i * esz + esz \<le> esz * A"
      using that(1) by (metis Suc_leI mult.commute mult_Suc mult_le_mono1 add.commute)
    have nb: "take (i * esz) b @ m_property (g ! (cb + i)) @ drop (i * esz + esz) b
        = concat (map (\<lambda>i. m_property (g ! (cb + i))) [0..<Suc i]) @ drop (Suc i * esz) buf0"
    proof -
      define C where "C = concat (map (\<lambda>i. m_property (g ! (cb + i))) [0..<i])"
      have lC: "length C = i * esz" using that(1) by (simp add: C_def lenC)
      have bC: "b = C @ drop (i * esz) buf0" by (simp add: b C_def)
      have "take (i * esz) b = C" by (simp add: bC lC)
      moreover have "drop (i * esz + esz) b = drop (Suc i * esz) buf0"
        by (simp add: bC lC add.commute)
      ultimately show ?thesis by (simp add: C_def)
    qed
    have eff': "elem_effect cur cb (Suc i) (m_property (g ! cur)) g (add_edge esz (cb + i) cur g1)"
      unfolding elem_effect_def
    proof (intro conjI allI impI)
      show "length (add_edge esz (cb + i) cur g1) = length g"
        using ci cur len1 by (simp add: add_edge_length)
    next
      fix w assume w: "w < length g"
      show "m_property (add_edge esz (cb + i) cur g1 ! w) = (if w = cur then m_property (g ! cur) else m_property (g ! w))"
        using eff w ci cur len1 by (simp add: add_edge_nth elem_effect_def)
      show "m_in_edges (add_edge esz (cb + i) cur g1 ! w) =
          (if w = cur then m_in_edges (g ! w) @ map ((+) cb) [0..<Suc i] else m_in_edges (g ! w))"
        using eff w ci cur len1 by (simp add: add_edge_nth elem_effect_def)
      show "m_out_edges (add_edge esz (cb + i) cur g1 ! w) =
          (if cb \<le> w \<and> w < cb + Suc i then m_out_edges (g ! w) @ [cur] else m_out_edges (g ! w))"
        using eff w ci cur len1 by (auto simp add: add_edge_nth elem_effect_def)
    qed
    show ?thesis
      using that(1) ci len1 p1 dl lb fit nb eff'
      by (simp add: child_step_def s get_hash_def copy_into_def cb I_def Let_def)
  qed
  from for_loop_invariant[of 0 A I "(buf0, g)" "child_step esz A prev start cur", OF _ I0]
  obtain s' where s': "for_loop [0..<A] (child_step esz A prev start cur) (buf0, g) = Inr s'" "I A s'"
    using step by blast
  from s'(2) buf have "fst s' = concat (map (\<lambda>i. m_property (g ! (cb + i))) [0..<A])"
    by (simp add: I_def mult.commute)
  with s' show ?thesis
    by (cases s') (auto simp: I_def)
qed

lemma put_hash_effect:
  assumes "cur < length g1" "elem_effect cur cb m d0 g g1"
  shows "\<exists>g'. put_hash cur d g1 = Inr g' \<and> elem_effect cur cb m d g g'"
  using assms by (auto simp: put_hash_def elem_effect_def nth_list_update)

lemma elem_effect_refl: "elem_effect cur cb 0 (m_property (g ! cur)) g g"
  by (auto simp: elem_effect_def)

lemma element_step_effect:
  assumes cur: "cur < length g"
    and row0: "row = 0 \<Longrightarrow> cur < length data"
    and rowp: "0 < row \<Longrightarrow> cb + A \<le> cur \<and> cb = (cur - start) * A + prev
                 \<and> (\<forall>i<A. length (m_property (g ! (cb + i))) = esz)"
  shows "\<exists>g'. element_step H esz A data row prev start cur g = Inr g'
         \<and> elem_effect cur cb (if row = 0 then 0 else A)
             (if row = 0 then H (data ! cur)
              else H (concat (map (\<lambda>i. m_property (g ! (cb + i))) [0..<A]))) g g'"
proof (cases "row = 0")
  case True
  with put_hash_effect[OF cur elem_effect_refl, where d = "H (data ! cur)" and cb = cb] row0
  show ?thesis
    by (simp add: element_step_def)
next
  case False
  with rowp have c: "cb + A \<le> cur" "cb = (cur - start) * A + prev"
    "\<forall>i<A. length (m_property (g ! (cb + i))) = esz"
    by blast+
  from child_loop_effect[OF c(1) cur c(2) c(3), of "replicate (esz * A) 0"]
  obtain g1 where g1: "for_loop [0..<A] (child_step esz A prev start cur) (replicate (esz * A) 0, g)
           = Inr (concat (map (\<lambda>i. m_property (g ! (cb + i))) [0..<A]), g1)"
    "elem_effect cur cb A (m_property (g ! cur)) g g1"
    by auto
  from g1(2) cur have "cur < length g1" by (simp add: elem_effect_def)
  from put_hash_effect[OF this g1(2),
      where d = "H (concat (map (\<lambda>i. m_property (g ! (cb + i))) [0..<A]))"]
  show ?thesis using False g1(1)
    by (simp add: element_step_def)
qed

lemma child_below_row:
  assumes "k < layer_size n A (Suc r)" "i < A"
  shows "rowStart n A r + k * A + i < rowStart n A (Suc r)"
  using child_in_row[of k "layer_size n A r" A i] assms by simp

lemma block_below_row:
  assumes "k < layer_size n A (Suc r)"
  shows "rowStart n A r + k * A + A \<le> rowStart n A (Suc r)"
proof -
  have "Suc k * A \<le> (layer_size n A r div A) * A"
    using assms by (intro mult_le_mono1) simp
  also have "\<dots> \<le> layer_size n A r" by simp
  finally show ?thesis by simp
qed

lemma inv_digest_step:
  assumes inv: "inv_digest H A data c g"
    and c: "c = rowStart (length data) A R + K" "K < layer_size (length data) A R" "c < length g"
    and eff: "elem_effect c cb m d g g'"
    and d: "d = (if R = 0 then H (data ! K)
                 else H (concat (map (\<lambda>i. m_property
                   (g ! (rowStart (length data) A (R - 1) + K * A + i))) [0..<A])))"
  shows "inv_digest H A data (Suc c) g'"
  unfolding inv_digest_def
proof (intro allI impI, elim conjE)
  fix r k
  let ?n = "length data"
  assume k: "k < layer_size ?n A r" and lt: "rowStart ?n A r + k < Suc c"
  have below: "rowStart ?n A (r - 1) + k * A + i < rowStart ?n A r + k" if "0 < r" "i < A" for i
  proof -
    from that(1) obtain r' where r': "r = Suc r'" by (cases r) auto
    with child_below_row[of k ?n A r' i] k that(2) show ?thesis by simp
  qed
  have same: "m_property (g' ! (rowStart ?n A (r - 1) + k * A + i))
            = m_property (g ! (rowStart ?n A (r - 1) + k * A + i))" if "0 < r" "i < A" for i
    using below[OF that] lt c(3) eff by (simp add: elem_effect_def)
  have maps: "map (\<lambda>i. m_property (g' ! (rowStart ?n A (r - 1) + k * A + i))) [0..<A]
            = map (\<lambda>i. m_property (g ! (rowStart ?n A (r - 1) + k * A + i))) [0..<A]" if "0 < r"
    using same[OF that] by simp
  have hc: "H (concat (map (\<lambda>i. m_property (g' ! (rowStart ?n A (r - 1) + k * A + i))) [0..<A]))
          = H (concat (map (\<lambda>i. m_property (g ! (rowStart ?n A (r - 1) + k * A + i))) [0..<A]))"
    if "0 < r"
    by (simp only: maps[OF that])
  show "m_property (g' ! (rowStart ?n A r + k)) =
          (if r = 0 then H (data ! k)
           else H (concat (map (\<lambda>i. m_property (g' ! (rowStart ?n A (r - 1) + k * A + i))) [0..<A])))"
  proof (cases "rowStart ?n A r + k = c")
    case True
    with rowStart_inj[OF k c(2)] c(1) have rk: "r = R" "k = K" by simp_all
    have "m_property (g' ! c) = d" using eff c(3) by (simp add: elem_effect_def)
    with True rk d hc show ?thesis by (cases "R = 0") simp_all
  next
    case False
    with lt have lt': "rowStart ?n A r + k < c" by simp
    then have "m_property (g' ! (rowStart ?n A r + k)) = m_property (g ! (rowStart ?n A r + k))"
      using eff c(3) by (simp add: elem_effect_def)
    moreover from inv k lt' have "m_property (g ! (rowStart ?n A r + k)) =
          (if r = 0 then H (data ! k)
           else H (concat (map (\<lambda>i. m_property (g ! (rowStart ?n A (r - 1) + k * A + i))) [0..<A])))"
      unfolding inv_digest_def by blast
    ultimately show ?thesis using hc by (cases "r = 0") simp_all
  qed
qed

lemma inv_in_step:
  assumes inv: "inv_in n A c g"
    and c: "c = rowStart n A R + K" "K < layer_size n A R" "c < length g"
    and eff: "elem_effect c cb m d g g'"
    and m: "m = (if R = 0 then 0 else A)" "0 < R \<Longrightarrow> cb = rowStart n A (R - 1) + K * A"
  shows "inv_in n A (Suc c) g'"
  unfolding inv_in_def
proof (intro conjI allI impI; (elim conjE)?)
  fix r k
  assume k: "k < layer_size n A r" and lt: "rowStart n A r + k < Suc c"
  show "m_in_edges (g' ! (rowStart n A r + k)) =
          (if r = 0 then [] else map (\<lambda>i. rowStart n A (r - 1) + k * A + i) [0..<A])"
  proof (cases "rowStart n A r + k = c")
    case True
    with rowStart_inj[OF k c(2)] c(1) have rk: "r = R" "k = K" by simp_all
    have "m_in_edges (g ! c) = []" using inv c(3) by (simp add: inv_in_def)
    then have "m_in_edges (g' ! c) = map (\<lambda>i. cb + i) [0..<m]"
      using eff c(3) by (simp add: elem_effect_def)
    with True rk m show ?thesis by (cases "R = 0") (simp_all add: add.assoc)
  next
    case False
    with lt have lt': "rowStart n A r + k < c" by simp
    then have "m_in_edges (g' ! (rowStart n A r + k)) = m_in_edges (g ! (rowStart n A r + k))"
      using eff c(3) by (simp add: elem_effect_def)
    with inv k lt' show ?thesis unfolding inv_in_def by simp
  qed
next
  fix v assume "Suc c \<le> v" "v < length g'"
  with eff inv show "m_in_edges (g' ! v) = []"
    by (simp add: elem_effect_def inv_in_def)
qed

lemma div_eq_block: "0 < A \<Longrightarrow> k div A = K \<longleftrightarrow> K * A \<le> k \<and> k < K * A + (A::nat)"
  by (metis add.commute div_nat_eqI mult.commute mult_Suc_right
      less_mult_imp_div_less dividend_less_times_div nat_le_linear not_less mult_Suc)

lemma inv_out_step:
  assumes inv: "inv_out n A c g"
    and A: "0 < A"
    and c: "c = rowStart n A R + K" "K < layer_size n A R" "c < length g"
    and eff: "elem_effect c cb m d g g'"
    and m: "m = (if R = 0 then 0 else A)" "0 < R \<Longrightarrow> cb = rowStart n A (R - 1) + K * A"
  shows "inv_out n A (Suc c) g'"
  unfolding inv_out_def
proof (intro conjI allI impI; (elim conjE)?)
  fix v assume v: "Suc c \<le> v" "v < length g'"
  have "\<not> (cb \<le> v \<and> v < cb + m)"
  proof (cases R)
    case 0
    with m show ?thesis by simp
  next
    case (Suc R')
    with block_below_row[of K n A R'] c(2) m
    have "cb + A \<le> rowStart n A R" by simp
    with Suc m c(1) v show ?thesis by simp
  qed
  with v eff inv show "m_out_edges (g' ! v) = []"
    by (simp add: elem_effect_def inv_out_def)
next
  fix r k
  assume k: "k < layer_size n A r" and lt: "rowStart n A r + k < Suc c"
  let ?w = "rowStart n A r + k"
  let ?p = "rowStart n A (Suc r) + k div A"
  have w: "?w < length g" using lt c(3) by simp
  have new: "m_out_edges (g' ! ?w) =
      (if cb \<le> ?w \<and> ?w < cb + m then m_out_edges (g ! ?w) @ [c] else m_out_edges (g ! ?w))"
    using eff w by (simp add: elem_effect_def)
  have next_row: "c < rowStart n A (Suc R)" using c by simp
  \<comment> \<open>the children of \<open>c\<close> are the vertices whose parent position is \<open>c\<close>\<close>
  have child_iff: "(cb \<le> ?w \<and> ?w < cb + m) \<longleftrightarrow> (k div A < layer_size n A (Suc r) \<and> ?p = c)"
  proof
    assume in_block: "cb \<le> ?w \<and> ?w < cb + m"
    then have "m \<noteq> 0" by auto
    with m obtain R' where R': "R = Suc R'" "m = A" "cb = rowStart n A R' + K * A"
      by (cases R) (auto split: if_splits)
    from in_block R' obtain i where i: "i < A" "?w = rowStart n A R' + (K * A + i)"
      by (metis add.assoc le_Suc_ex nat_add_left_cancel_less)
    from c(2) R' i(1) have "K * A + i < layer_size n A R'"
      using child_in_row[of K "layer_size n A R'" A i] by simp
    from rowStart_inj[OF k this i(2)] have rk: "r = R'" "k = K * A + i" by simp_all
    from rk(2) i(1) A have "k div A = K" by (simp add: div_eq_block)
    with rk R' c show "k div A < layer_size n A (Suc r) \<and> ?p = c" by simp
  next
    assume par: "k div A < layer_size n A (Suc r) \<and> ?p = c"
    with rowStart_inj[of "k div A" n A "Suc r" K R] c have R: "R = Suc r" "k div A = K"
      by simp_all
    from R(2) A have "K * A \<le> k \<and> k < K * A + A" by (simp add: div_eq_block)
    with R m show "cb \<le> ?w \<and> ?w < cb + m" by simp
  qed
  show "m_out_edges (g' ! ?w) =
          (if k div A < layer_size n A (Suc r) \<and> ?p < Suc c then [?p] else [])"
  proof (cases "?w = c")
    case True
    with rowStart_inj[OF k c(2)] c(1) have rk: "r = R" "k = K" by simp_all
    have "\<not> ?p < Suc c" using rk next_row by simp
    moreover have "\<not> (k div A < layer_size n A (Suc r) \<and> ?p = c)" using rk next_row by simp
    moreover have "m_out_edges (g ! c) = []" using inv c(3) by (simp add: inv_out_def)
    ultimately show ?thesis using new child_iff True by simp
  next
    case False
    with lt have lt': "?w < c" by simp
    with inv k have old: "m_out_edges (g ! ?w) =
          (if k div A < layer_size n A (Suc r) \<and> ?p < c then [?p] else [])"
      unfolding inv_out_def by blast
    show ?thesis
    proof (cases "k div A < layer_size n A (Suc r) \<and> ?p = c")
      case True
      with new child_iff old show ?thesis by simp
    next
      case False
      then have "(k div A < layer_size n A (Suc r) \<and> ?p < Suc c)
          \<longleftrightarrow> (k div A < layer_size n A (Suc r) \<and> ?p < c)"
        by (auto simp: less_Suc_eq)
      with False new child_iff old show ?thesis by simp
    qed
  qed
qed

lemma inv_digest_length:
  assumes "inv_digest H A data c g" "\<forall>x. length (H x) = esz"
    and "k < layer_size (length data) A r" "rowStart (length data) A r + k < c"
  shows "length (m_property (g ! (rowStart (length data) A r + k))) = esz"
proof -
  from assms(1,3,4) have "m_property (g ! (rowStart (length data) A r + k)) =
          (if r = 0 then H (data ! k)
           else H (concat (map (\<lambda>i. m_property
                 (g ! (rowStart (length data) A (r - 1) + k * A + i))) [0..<A])))"
    unfolding inv_digest_def by blast
  with assms(2) show ?thesis by (cases "r = 0") simp_all
qed

lemma element_step_inv:
  assumes A: "0 < A" and hs: "\<forall>x. length (H x) = esz"
    and inv: "tree_inv H A data c g"
    and c: "c = rowStart (length data) A R + K" "K < layer_size (length data) A R" "c < length g"
    and prev: "0 < R \<Longrightarrow> prev = rowStart (length data) A (R - 1)"
  shows "\<exists>g'. element_step H esz A data R prev (rowStart (length data) A R) c g = Inr g'
           \<and> tree_inv H A data (Suc c) g' \<and> length g' = length g"
proof -
  let ?n = "length data"
  define cb where "cb = (if R = 0 then 0 else rowStart ?n A (R - 1) + K * A)"
  have row0: "c < length data" if "R = 0"
    using that c by simp
  have rowp: "cb + A \<le> c \<and> cb = (c - rowStart ?n A R) * A + prev
                 \<and> (\<forall>i<A. length (m_property (g ! (cb + i))) = esz)" if "0 < R"
  proof -
    from that obtain R' where R': "R = Suc R'" by (cases R) auto
    have cb: "cb = rowStart ?n A R' + K * A" by (simp add: cb_def R')
    from block_below_row[of K ?n A R'] c(2) R' have blk: "cb + A \<le> rowStart ?n A R"
      by (simp add: cb)
    have "length (m_property (g ! (cb + i))) = esz" if "i < A" for i
    proof -
      from child_in_row[of K "layer_size ?n A R'" A i] c(2) R' that
      have ki: "K * A + i < layer_size ?n A R'" by simp
      have "rowStart ?n A R' + (K * A + i) < c" using blk that c(1) by (simp add: cb)
      from inv_digest_length[OF _ hs ki this] inv show ?thesis
        by (simp add: tree_inv_def cb add.assoc)
    qed
    with blk c(1) prev[OF \<open>0 < R\<close>] R' show ?thesis by (simp add: cb)
  qed
  from element_step_effect[of c g R data cb A "rowStart ?n A R" prev esz H, OF c(3) row0 rowp]
  obtain g' where g': "element_step H esz A data R prev (rowStart ?n A R) c g = Inr g'"
    and eff: "elem_effect c cb (if R = 0 then 0 else A)
             (if R = 0 then H (data ! c)
              else H (concat (map (\<lambda>i. m_property (g ! (cb + i))) [0..<A]))) g g'"
    by blast
  have d: "(if R = 0 then H (data ! c)
              else H (concat (map (\<lambda>i. m_property (g ! (cb + i))) [0..<A])))
         = (if R = 0 then H (data ! K)
                 else H (concat (map (\<lambda>i. m_property
                   (g ! (rowStart ?n A (R - 1) + K * A + i))) [0..<A])))"
    using c(1) by (simp add: cb_def)
  have cbR: "0 < R \<Longrightarrow> cb = rowStart ?n A (R - 1) + K * A" by (simp add: cb_def)
  from inv have i1: "inv_digest H A data c g" and i2: "inv_in ?n A c g" and i3: "inv_out ?n A c g"
    by (simp_all add: tree_inv_def)
  have "inv_digest H A data (Suc c) g'"
    by (rule inv_digest_step[OF i1 c eff d])
  moreover have "inv_in ?n A (Suc c) g'"
    by (rule inv_in_step[OF i2 c eff refl cbR])
  moreover have "inv_out ?n A (Suc c) g'"
    by (rule inv_out_step[OF i3 A c eff refl cbR])
  moreover have "length g' = length g" using eff by (simp add: elem_effect_def)
  ultimately show ?thesis using g' by (simp add: tree_inv_def)
qed

lemma row_loop_inv:
  assumes A: "0 < A" and hs: "\<forall>x. length (H x) = esz"
    and inv: "tree_inv H A data (rowStart (length data) A R) g"
    and len: "rowStart (length data) A (Suc R) \<le> length g"
    and prev: "0 < R \<Longrightarrow> prev = rowStart (length data) A (R - 1)"
  shows "\<exists>g'. for_loop [rowStart (length data) A R ..<
                         rowStart (length data) A R + layer_size (length data) A R]
                 (element_step H esz A data R prev (rowStart (length data) A R)) g = Inr g'
           \<and> tree_inv H A data (rowStart (length data) A (Suc R)) g' \<and> length g' = length g"
proof -
  let ?n = "length data"
  define I where "I = (\<lambda>c g'. tree_inv H A data c g' \<and> length g' = length g)"
  have I0: "I (rowStart ?n A R) g" using inv by (simp add: I_def)
  have step: "\<exists>s'. element_step H esz A data R prev (rowStart ?n A R) i s = Inr s' \<and> I (Suc i) s'"
    if "rowStart ?n A R \<le> i" "i < rowStart ?n A R + layer_size ?n A R" "I i s" for i s
  proof -
    from that(1,2) have c: "i = rowStart ?n A R + (i - rowStart ?n A R)"
      "i - rowStart ?n A R < layer_size ?n A R" by simp_all
    from that(2,3) len have "i < length s" by (simp add: I_def)
    from that(3) have "tree_inv H A data i s" by (simp add: I_def)
    from element_step_inv[OF A hs this c \<open>i < length s\<close> prev] that(3) show ?thesis
      by (auto simp: I_def)
  qed
  from for_loop_invariant[of "rowStart ?n A R" "rowStart ?n A R + layer_size ?n A R" I g
      "element_step H esz A data R prev (rowStart ?n A R)", OF _ I0 step]
  show ?thesis by (simp add: I_def)
qed

lemma funpow_add_vertex: "(add_vertex esz ^^ m) [] = replicate m (new_vertex esz)"
  by (induction m) (simp_all add: add_vertex_def replicate_append_same)

lemma tree_inv_initial: "tree_inv H A data 0 (replicate m (new_vertex esz))"
  by (simp add: tree_inv_def inv_digest_def inv_in_def inv_out_def new_vertex_def)

lemma MerkleTree_built:
  assumes A: "0 < A" and md: "length data mod A = 0" and hs: "\<forall>x. length (H x) = esz"
  shows "\<exists>t. MerkleTree H esz A data = Inr t
           \<and> leafs t = length data
           \<and> len t = get_merkle_tree_len (length data) A
           \<and> row_count t = get_merkle_tree_row_count (length data) A
           \<and> length (Tree t) = len t
           \<and> tree_inv H A data (len t) (Tree t)"
proof -
  let ?n = "length data"
  define L where "L = get_merkle_tree_len ?n A"
  define Rc where "Rc = get_merkle_tree_row_count ?n A"
  have L: "L = rowStart ?n A Rc" by (simp add: L_def Rc_def len_rowStart)
  define J where "J = (\<lambda>R (s :: nat \<times> nat \<times> nat \<times> graph_t).
      case s of (prev, start, layer, g) \<Rightarrow>
        start = rowStart ?n A R \<and> layer = layer_size ?n A R
        \<and> (0 < R \<longrightarrow> prev = rowStart ?n A (R - 1))
        \<and> tree_inv H A data (rowStart ?n A R) g \<and> length g = L)"
  have J0: "J 0 (0, 0, ?n, (add_vertex esz ^^ L) [])"
    by (simp add: J_def funpow_add_vertex tree_inv_initial)
  have step: "\<exists>s'. row_step H esz A data R s = Inr s' \<and> J (Suc R) s'"
    if "R < Rc" "J R s" for R s
  proof -
    obtain prev start layer g where s: "s = (prev, start, layer, g)" by (cases s)
    from that(2) have j: "start = rowStart ?n A R" "layer = layer_size ?n A R"
      "0 < R \<Longrightarrow> prev = rowStart ?n A (R - 1)"
      "tree_inv H A data (rowStart ?n A R) g" "length g = L"
      by (simp_all add: J_def s)
    have "rowStart ?n A (Suc R) \<le> length g"
      using rowStart_mono[of "Suc R" Rc ?n A] that(1) j(5) L by simp
    from row_loop_inv[OF A hs j(4) this j(3)] obtain g' where
      g': "for_loop [rowStart ?n A R ..< rowStart ?n A R + layer_size ?n A R]
                 (element_step H esz A data R prev (rowStart ?n A R)) g = Inr g'"
        "tree_inv H A data (rowStart ?n A (Suc R)) g'" "length g' = length g"
      by blast
    then show ?thesis using j by (simp add: row_step_def s J_def)
  qed
  from for_loop_invariant[of 0 Rc J "(0, 0, ?n, (add_vertex esz ^^ L) [])"
      "row_step H esz A data", OF _ J0 step]
  obtain s' where s': "for_loop [0..<Rc] (row_step H esz A data) (0, 0, ?n, (add_vertex esz ^^ L) [])
      = Inr s'" "J Rc s'"
    by auto
  obtain prev start layer g where s: "s' = (prev, start, layer, g)" by (cases s')
  from s'(2) have "tree_inv H A data L g" "length g = L" by (simp_all add: J_def s L)
  with s'(1) A md show ?thesis
    by (simp add: MerkleTree_def Let_def s L_def[symmetric] Rc_def[symmetric])
qed

lemma rowStart_sum: "rowStart n A R = (\<Sum>r<R. layer_size n A r)"
  by (induction R) simp_all

lemma row_in_tree:
  assumes "r < R" "k < layer_size n A r"
  shows "rowStart n A r + k < rowStart n A R"
proof -
  have "rowStart n A (Suc r) \<le> rowStart n A R"
    using assms(1) by (intro rowStart_mono) simp
  with assms(2) show ?thesis by simp
qed


lemma built_digest:
  assumes "tree_inv H A data (rowStart (length data) A R) g"
    and "r < R" "k < layer_size (length data) A r"
  shows "m_property (g ! (rowStart (length data) A r + k)) =
          (if r = 0 then H (data ! k)
           else H (concat (map (\<lambda>i. m_property
                 (g ! (rowStart (length data) A (r - 1) + k * A + i))) [0..<A])))"
  using assms(1) row_in_tree[OF assms(2,3)] assms(3)
  unfolding tree_inv_def inv_digest_def by blast

lemma toy_hash_size: "\<forall>x. length (toy_hash x) = 1"
  by (simp add: toy_hash_def)

lemma tree2_value: "MerkleTree toy_hash 1 2 leaves2 = Inr tree2"
  by code_simp

text \<open>
  The loops of the constructor fail at an unchecked access only, whatever the number of
  rows and the number of vertices are: nothing in them reports a wrong number of leaves.
\<close>

lemma for_loop_error:
  assumes "\<And>i s e. body i s = Inl e \<Longrightarrow> e = Out_of_bounds"
    and "for_loop xs body s = Inl e"
  shows "e = Out_of_bounds"
  using assms(2)
proof (induction xs arbitrary: s)
  case Nil
  then show ?case by simp
next
  case (Cons i js)
  show ?case
  proof (cases "body i s")
    case (Inl e')
    with Cons.prems assms(1)[of i s e'] show ?thesis by simp
  next
    case (Inr s')
    with Cons.prems Cons.IH[of s'] show ?thesis by simp
  qed
qed

lemma child_step_error:
  "child_step esz A prev start cur i s = Inl e \<Longrightarrow> e = Out_of_bounds"
  by (cases s)
     (auto simp: child_step_def get_hash_def copy_into_def Let_def split: if_splits sum.splits)

lemma element_step_error:
  assumes "element_step H esz A data row prev start cur g = Inl e"
  shows "e = Out_of_bounds"
proof (cases "row = 0")
  case True
  with assms show ?thesis
    by (auto simp: element_step_def put_hash_def split: if_splits)
next
  case False
  show ?thesis
  proof (cases "for_loop [0..<A] (child_step esz A prev start cur) (replicate (esz * A) 0, g)")
    case (Inl e')
    with assms False have "e' = e" by (simp add: element_step_def)
    with for_loop_error[of "child_step esz A prev start cur", OF child_step_error Inl]
    show ?thesis by simp
  next
    case (Inr s')
    with assms False show ?thesis
      by (cases s') (auto simp: element_step_def put_hash_def split: if_splits)
  qed
qed

lemma row_step_error:
  assumes "row_step H esz A data row s = Inl e"
  shows "e = Out_of_bounds"
proof -
  obtain prev start layer g where s: "s = (prev, start, layer, g)" by (cases s) auto
  show ?thesis
  proof (cases "for_loop [start..<start + layer] (element_step H esz A data row prev start) g")
    case (Inl e')
    with assms s have "e' = e" by (simp add: row_step_def)
    with for_loop_error[of "element_step H esz A data row prev start", OF element_step_error Inl]
    show ?thesis by simp
  next
    case (Inr g')
    with assms s show ?thesis by (simp add: row_step_def)
  qed
qed

lemma rows_error:
  assumes "for_loop [0..<rc] (row_step H esz A data) s = Inl e"
  shows "e = Out_of_bounds"
  using for_loop_error[of "row_step H esz A data", OF row_step_error assms] .

lemma MerkleTree_error:
  assumes "MerkleTree H esz A data = Inl e"
  shows "A = 0 \<and> e = Division_by_zero \<or>
         0 < A \<and> length data mod A \<noteq> 0 \<and> e = Wrong_leafs_number \<or>
         0 < A \<and> length data mod A = 0 \<and> e = Out_of_bounds"
proof (cases "A = 0 \<or> length data mod A \<noteq> 0")
  case True
  with assms show ?thesis by (auto simp: MerkleTree_def split: if_splits)
next
  case False
  then have A: "0 < A" and md: "length data mod A = 0" by simp_all
  let ?l = "for_loop [0..<get_merkle_tree_row_count (length data) A] (row_step H esz A data)
              (0, 0, length data, (add_vertex esz ^^ get_merkle_tree_len (length data) A) [])"
  show ?thesis
  proof (cases ?l)
    case (Inl e')
    with assms A md have "e' = e" by (simp add: MerkleTree_def Let_def)
    with rows_error[OF Inl] A md show ?thesis by simp
  next
    case (Inr s')
    with assms A md show ?thesis
      by (cases s') (auto simp: MerkleTree_def Let_def)
  qed
qed

section \<open>The built tree and its queries\<close>

lemma layer_size_pow: "0 < A \<Longrightarrow> r \<le> h \<Longrightarrow> layer_size (A ^ h) A r = A ^ (h - r)"
proof (induction r)
  case 0
  then show ?case by simp
next
  case (Suc r)
  then have "layer_size (A ^ h) A r = A ^ (h - r)" by simp
  moreover from Suc.prems have "h - r = Suc (h - Suc r)" by simp
  ultimately show ?case using Suc.prems(1) by simp
qed

lemma row_count_pow: "2 \<le> A \<Longrightarrow> get_merkle_tree_row_count (A ^ h) A = Suc h"
proof (induction h)
  case 0
  show ?case by (simp add: get_merkle_tree_row_count.simps[of "Suc 0" A])
next
  case (Suc h)
  from Suc.prems have "1 < A * A ^ h"
    by (metis One_nat_def Suc_1 Suc_le_lessD nat_less_le one_le_power less_imp_le_nat
        mult.right_neutral mult_le_mono2 order_less_le_trans)
  with Suc show ?case
    by (simp add: get_merkle_tree_row_count.simps[of "A * A ^ h" A])
qed

lemma row_count_pos: "0 < get_merkle_tree_row_count n A"
  by (simp add: get_merkle_tree_row_count.simps[of n A])

lemma row_count_le_len: "get_merkle_tree_row_count n A \<le> Suc (get_merkle_tree_len n A)"
proof (induction n A rule: get_merkle_tree_row_count.induct)
  case (1 n A)
  show ?case
  proof (cases "n \<le> 1 \<or> A \<le> 1")
    case True
    then show ?thesis
      by (simp add: get_merkle_tree_len.simps[of n A] get_merkle_tree_row_count.simps[of n A])
  next
    case False
    with 1 have "get_merkle_tree_row_count (n div A) A \<le> Suc (get_merkle_tree_len (n div A) A)"
      by simp
    with False show ?thesis
      by (simp add: get_merkle_tree_len.simps[of n A] get_merkle_tree_row_count.simps[of n A])
  qed
qed

text \<open>The facts about a tree that the constructor returns.\<close>

lemma built_facts:
  assumes A: "0 < A" and md: "length data mod A = 0" and hs: "\<forall>x. length (H x) = esz"
    and t: "MerkleTree H esz A data = Inr t"
  shows "leafs t = length data"
    and "row_count t = get_merkle_tree_row_count (length data) A"
    and "len t = rowStart (length data) A (row_count t)"
    and "length (Tree t) = len t"
    and "tree_inv H A data (rowStart (length data) A (row_count t)) (Tree t)"
  using MerkleTree_built[OF A md hs] t by (auto simp: len_rowStart)

lemma built_in_edges:
  assumes "tree_inv H A data (rowStart (length data) A R) g"
    and "r < R" "k < layer_size (length data) A r"
  shows "m_in_edges (g ! (rowStart (length data) A r + k)) =
          (if r = 0 then [] else map (\<lambda>i. rowStart (length data) A (r - 1) + k * A + i) [0..<A])"
  using assms(1) row_in_tree[OF assms(2,3)] assms(3)
  unfolding tree_inv_def inv_in_def by blast

lemma built_out_edges:
  assumes "tree_inv H A data (rowStart (length data) A R) g"
    and "r < R" "k < layer_size (length data) A r"
  shows "m_out_edges (g ! (rowStart (length data) A r + k)) =
          (if k div A < layer_size (length data) A (Suc r) \<and> Suc r < R
           then [rowStart (length data) A (Suc r) + k div A] else [])"
proof -
  let ?n = "length data"
  from assms(1) row_in_tree[OF assms(2,3)] assms(3)
  have out: "m_out_edges (g ! (rowStart ?n A r + k)) =
          (if k div A < layer_size ?n A (Suc r) \<and> rowStart ?n A (Suc r) + k div A < rowStart ?n A R
           then [rowStart ?n A (Suc r) + k div A] else [])"
    unfolding tree_inv_def inv_out_def by blast
  have "rowStart ?n A (Suc r) + k div A < rowStart ?n A R \<longleftrightarrow> Suc r < R"
    if "k div A < layer_size ?n A (Suc r)"
  proof
    assume "Suc r < R"
    from row_in_tree[OF this that] show "rowStart ?n A (Suc r) + k div A < rowStart ?n A R" .
  next
    assume lt: "rowStart ?n A (Suc r) + k div A < rowStart ?n A R"
    show "Suc r < R"
    proof (rule ccontr)
      assume "\<not> Suc r < R"
      then have "rowStart ?n A R \<le> rowStart ?n A (Suc r)" by (intro rowStart_mono) simp
      with lt show False by simp
    qed
  qed
  with out show ?thesis by auto
qed

lemma built_parent:
  assumes "tree_inv H A data (rowStart (length data) A (row_count t)) (Tree t)"
    and "length (Tree t) = rowStart (length data) A (row_count t)"
    and "r < row_count t" "k < layer_size (length data) A r"
  shows "parent t (rowStart (length data) A r + k) =
          (if k div A < layer_size (length data) A (Suc r) \<and> Suc r < row_count t
           then Inr (rowStart (length data) A (Suc r) + k div A) else Inl Out_of_bounds)"
  using built_out_edges[OF assms(1,3,4)] row_in_tree[OF assms(3,4)] assms(2)
  by (simp add: parent_def)

lemma built_children:
  assumes "tree_inv H A data (rowStart (length data) A (row_count t)) (Tree t)"
    and "length (Tree t) = rowStart (length data) A (row_count t)"
    and "r < row_count t" "k < layer_size (length data) A r"
  shows "children A t (rowStart (length data) A r + k) =
          Inr (if r = 0 then replicate A None
               else map Some (map (\<lambda>i. rowStart (length data) A (r - 1) + k * A + i) [0..<A]))"
  using built_in_edges[OF assms(1,3,4)] row_in_tree[OF assms(3,4)] assms(2)
  by (simp add: children_def)

lemma parent_chain_hd: "\<exists>rest. parent_chain f t v = v # rest"
  by (cases f) (auto split: sum.splits)

lemma parent_chain_ne: "parent_chain f t v \<noteq> []"
  using parent_chain_hd[of f t v] by auto

lemma hash_path_loop_chain:
  assumes "\<forall>u \<in> set (parent_chain f t v). u < length (Tree t)"
    and "parent t (last (parent_chain f t v)) = Inl e"
  shows "hash_path_loop (Tree t) (m_out_edges (Tree t ! v)) res =
           Some (Inr (res @ map (\<lambda>u. m_property (Tree t ! u)) (tl (parent_chain f t v))))"
  using assms
proof (induction f arbitrary: v res)
  case 0
  then have "m_out_edges (Tree t ! v) = []"
    by (auto simp: parent_def split: list.splits)
  then show ?case by (simp add: hash_path_loop.simps)
next
  case (Suc f)
  show ?case
  proof (cases "parent t v")
    case (Inl e')
    with Suc.prems have "m_out_edges (Tree t ! v) = []"
      by (auto simp: parent_def split: list.splits if_splits)
    with Inl show ?thesis by (simp add: hash_path_loop.simps)
  next
    case (Inr p)
    then obtain ps where out: "m_out_edges (Tree t ! v) = p # ps"
      by (auto simp: parent_def split: list.splits if_splits)
    obtain rest where rest: "parent_chain f t p = p # rest"
      using parent_chain_hd by blast
    from Suc.prems(1) Inr rest have p: "p < length (Tree t)" by simp
    from Suc.prems Inr have
      "\<forall>u \<in> set (parent_chain f t p). u < length (Tree t)"
      "parent t (last (parent_chain f t p)) = Inl e"
      by (simp_all add: parent_chain_ne)
    from Suc.IH[OF this, of "res @ [m_property (Tree t ! p)]"] out p Inr rest
    show ?thesis
      by (simp add: hash_path_loop.simps[of "Tree t" "p # ps"])
  qed
qed

lemma hash_path_chain:
  assumes "\<forall>u \<in> set (parent_chain f t v). u < length (Tree t)"
    and "parent t (last (parent_chain f t v)) = Inl e"
  shows "hash_path t v = Some (Inr (map (\<lambda>u. m_property (Tree t ! u)) (parent_chain f t v)))"
proof -
  obtain rest where rest: "parent_chain f t v = v # rest"
    using parent_chain_hd by blast
  with assms(1) have "v < length (Tree t)" by simp
  with hash_path_loop_chain[OF assms, of "[m_property (Tree t ! v)]"] rest show ?thesis
    by (simp add: hash_path_def)
qed

lemma built_chain:
  assumes inv: "tree_inv H A data (rowStart (length data) A (row_count t)) (Tree t)"
    and len: "length (Tree t) = rowStart (length data) A (row_count t)"
  shows "r < row_count t \<Longrightarrow> k < layer_size (length data) A r \<Longrightarrow> row_count t \<le> Suc (r + f) \<Longrightarrow>
         (\<forall>u \<in> set (parent_chain f t (rowStart (length data) A r + k)). u < length (Tree t)) \<and>
         parent t (last (parent_chain f t (rowStart (length data) A r + k))) = Inl Out_of_bounds"
proof (induction f arbitrary: r k)
  case 0
  with built_parent[OF inv len 0(1,2)] row_in_tree[OF 0(1,2)] len show ?case by simp
next
  case (Suc f)
  let ?n = "length data"
  define v where "v = rowStart ?n A r + k"
  define p where "p = rowStart ?n A (Suc r) + k div A"
  have par: "parent t v =
          (if k div A < layer_size ?n A (Suc r) \<and> Suc r < row_count t
           then Inr p else Inl Out_of_bounds)"
    unfolding v_def p_def by (rule built_parent[OF inv len Suc.prems(1,2)])
  have v: "v < length (Tree t)"
    unfolding v_def using row_in_tree[OF Suc.prems(1,2)] len by simp
  show ?case
  proof (cases "k div A < layer_size ?n A (Suc r) \<and> Suc r < row_count t")
    case True
    then have kd: "k div A < layer_size ?n A (Suc r)" and sr: "Suc r < row_count t"
      by blast+
    from Suc.prems(3) have "row_count t \<le> Suc (Suc r + f)" by simp
    from Suc.IH[OF sr kd this]
    have IH: "\<forall>u \<in> set (parent_chain f t p). u < length (Tree t)"
      "parent t (last (parent_chain f t p)) = Inl Out_of_bounds"
      unfolding p_def by blast+
    from True par have "parent t v = Inr p" by auto
    then have "parent_chain (Suc f) t v = v # parent_chain f t p" by simp
    with IH v show ?thesis
      unfolding v_def[symmetric] by (simp add: parent_chain_ne)
  next
    case False
    with par have pe: "parent t v = Inl Out_of_bounds"
      by auto
    then have "parent_chain (Suc f) t v = [v]" by simp
    with pe v show ?thesis unfolding v_def[symmetric] by simp
  qed
qed

lemma div_pow_less:
  assumes "0 < (A::nat)" "r < h" "k < A ^ (h - r)"
  shows "k div A < A ^ (h - Suc r)"
proof -
  define d where "d = h - Suc r"
  from assms(2) have "h - r = Suc d" by (simp add: d_def)
  with assms(3) have "k < A ^ Suc d" by simp
  then have "k < A ^ d * A" by (simp add: mult.commute)
  then have "k div A < A ^ d" by (rule less_mult_imp_div_less)
  then show ?thesis by (simp add: d_def)
qed

lemma perfect_chain:
  assumes inv: "tree_inv H A data (rowStart (length data) A (Suc h)) (Tree t)"
    and len: "length (Tree t) = rowStart (length data) A (Suc h)"
    and rc: "row_count t = Suc h"
    and n: "length data = A ^ h" and A: "0 < A"
  shows "r \<le> h \<Longrightarrow> k < layer_size (length data) A r \<Longrightarrow> h \<le> r + f \<Longrightarrow>
         last (parent_chain f t (rowStart (length data) A r + k)) = rowStart (length data) A h \<and>
         length (parent_chain f t (rowStart (length data) A r + k)) = Suc (h - r)"
proof (induction f arbitrary: r k)
  case 0
  then have "r = h" by simp
  with 0(2) layer_size_pow[OF A, of h h] n show ?case by simp
next
  case (Suc f)
  let ?n = "length data"
  define v where "v = rowStart ?n A r + k"
  define p where "p = rowStart ?n A (Suc r) + k div A"
  from Suc.prems(1) rc have r: "r < row_count t" by simp
  have par: "parent t v =
          (if k div A < layer_size ?n A (Suc r) \<and> Suc r < row_count t
           then Inr p else Inl Out_of_bounds)"
    unfolding v_def p_def by (rule built_parent[OF inv[folded rc] len[folded rc] r Suc.prems(2)])
  show ?case
  proof (cases "r = h")
    case True
    with Suc.prems(2) layer_size_pow[OF A, of h h] n have "k = 0" by simp
    moreover from True rc have "\<not> (k div A < layer_size ?n A (Suc r) \<and> Suc r < row_count t)"
      by simp
    with par have "parent t v = Inl Out_of_bounds" by auto
    then have "parent_chain (Suc f) t v = [v]" by simp
    ultimately show ?thesis unfolding v_def[symmetric] using True by (simp add: v_def)
  next
    case False
    with Suc.prems(1) have rh: "r < h" by simp
    from Suc.prems(2) have "k < A ^ (h - r)"
      using layer_size_pow[OF A Suc.prems(1)] n by simp
    from div_pow_less[OF A rh this] have kd: "k div A < layer_size ?n A (Suc r)"
      using layer_size_pow[OF A, of "Suc r" h] rh n by (simp del: layer_size.simps)
    from rh have "Suc r \<le> h" by simp
    moreover from Suc.prems(3) have "h \<le> Suc r + f" by simp
    ultimately have IH: "last (parent_chain f t p) = rowStart ?n A h"
      "length (parent_chain f t p) = Suc (h - Suc r)"
      using Suc.IH[of "Suc r" "k div A"] kd unfolding p_def by blast+
    from kd rh rc have "k div A < layer_size ?n A (Suc r) \<and> Suc r < row_count t"
      by simp
    with par have "parent t v = Inr p" by auto
    then have "parent_chain (Suc f) t v = v # parent_chain f t p" by simp
    moreover from rh have "Suc (h - Suc r) = h - r" by simp
    ultimately show ?thesis
      unfolding v_def[symmetric] using IH by (simp add: parent_chain_ne)
  qed
qed

lemma built_len_pos:
  assumes "0 < n"
  shows "0 < rowStart n A (get_merkle_tree_row_count n A)"
proof -
  have "rowStart n A (Suc 0) \<le> rowStart n A (get_merkle_tree_row_count n A)"
    using row_count_pos[of n A] by (intro rowStart_mono) simp
  with assms show ?thesis by simp
qed

lemma built_last_out_edges:
  assumes inv: "tree_inv H A data (rowStart (length data) A R) g"
    and pos: "0 < rowStart (length data) A R"
  shows "m_out_edges (g ! (rowStart (length data) A R - 1)) = []"
proof -
  let ?n = "length data"
  from pos have "rowStart ?n A R - 1 < rowStart ?n A R" by simp
  from rowStart_decomp[OF this] obtain r k where
    rk: "r < R" "k < layer_size ?n A r" "rowStart ?n A R - 1 = rowStart ?n A r + k"
    by blast
  have "\<not> (k div A < layer_size ?n A (Suc r) \<and> Suc r < R)"
  proof
    assume c: "k div A < layer_size ?n A (Suc r) \<and> Suc r < R"
    then have "rowStart ?n A (Suc r) + k div A < rowStart ?n A R"
      by (intro row_in_tree) simp_all
    moreover have "rowStart ?n A r + k < rowStart ?n A (Suc r)" using rk(2) by simp
    ultimately show False using rk(3) by simp
  qed
  with built_out_edges[OF inv rk(1,2)] rk(3) show ?thesis by simp
qed

lemma row_count_least:
  "2 \<le> A \<Longrightarrow>
   layer_size n A (get_merkle_tree_row_count n A - 1) \<le> 1 \<and>
   (\<forall>m. m < get_merkle_tree_row_count n A - 1 \<longrightarrow> 1 < layer_size n A m)"
proof (induction n A rule: get_merkle_tree_row_count.induct)
  case (1 n A)
  show ?case
  proof (cases "n \<le> 1")
    case True
    then show ?thesis by (simp add: get_merkle_tree_row_count.simps[of n A])
  next
    case False
    with 1 have IH: "layer_size (n div A) A (get_merkle_tree_row_count (n div A) A - 1) \<le> 1"
      "\<And>m. m < get_merkle_tree_row_count (n div A) A - 1 \<Longrightarrow> 1 < layer_size (n div A) A m"
      by simp_all
    from False 1(2) have rc: "get_merkle_tree_row_count n A = Suc (get_merkle_tree_row_count (n div A) A)"
      by (simp add: get_merkle_tree_row_count.simps[of n A])
    obtain q where q: "get_merkle_tree_row_count (n div A) A = Suc q"
      using row_count_pos[of "n div A" A] by (cases "get_merkle_tree_row_count (n div A) A") auto
    have "layer_size (n div A) A q \<le> 1"
      using IH(1) unfolding q by simp
    then have "layer_size n A (Suc q) \<le> 1"
      unfolding layer_size_shift .
    moreover have "1 < layer_size n A m" if "m < Suc q" for m
    proof (cases m)
      case 0
      with False show ?thesis by simp
    next
      case (Suc m')
      with that IH(2)[of m'] q have "1 < layer_size (n div A) A m'" by simp
      then show ?thesis unfolding Suc layer_size_shift .
    qed
    ultimately show ?thesis by (simp add: rc q)
  qed
qed

lemma tree4_value: "MerkleTree toy_hash 1 2 leaves4 = Inr tree4"
  by code_simp

lemma tree6_value: "MerkleTree toy_hash 1 2 leaves6 = Inr tree6"
  by code_simp

lemma perfect_precondition:
  assumes "2 \<le> (A::nat)" "0 < h"
  shows "A ^ h mod A = 0" and "A \<le> A ^ h"
proof -
  from assms(2) obtain h' where h: "h = Suc h'" by (cases h) auto
  show "A ^ h mod A = 0" by (simp add: h)
  from assms(1) have "1 \<le> A ^ h'" by simp
  then have "A * 1 \<le> A * A ^ h'" by (intro mult_le_mono2)
  then show "A \<le> A ^ h" by (simp add: h)
qed

lemma perfect_len:
  assumes "0 < (A::nat)"
  shows "rowStart (A ^ h) A (Suc h) - 1 = rowStart (A ^ h) A h"
  using layer_size_pow[OF assms, of h h] by simp

lemma perfect_parent:
  assumes inv: "tree_inv H A data (rowStart (length data) A (row_count t)) (Tree t)"
    and len: "length (Tree t) = rowStart (length data) A (row_count t)"
    and rc: "row_count t = Suc h"
    and n: "length data = A ^ h" and A: "0 < A"
    and r: "r < h" and k: "k < layer_size (length data) A r"
  shows "k div A < layer_size (length data) A (Suc r)"
    and "parent t (rowStart (length data) A r + k) = Inr (rowStart (length data) A (Suc r) + k div A)"
    and "m_out_edges (Tree t ! (rowStart (length data) A r + k)) =
           [rowStart (length data) A (Suc r) + k div A]"
proof -
  let ?n = "length data"
  from r have rle: "r \<le> h" and srle: "Suc r \<le> h" by simp_all
  from k have "k < A ^ (h - r)"
    using layer_size_pow[OF A rle] n by simp
  from div_pow_less[OF A r this] show kd: "k div A < layer_size ?n A (Suc r)"
    using layer_size_pow[OF A srle] n by (simp del: layer_size.simps)
  from r rc have r': "r < row_count t" and sr: "Suc r < row_count t" by simp_all
  from kd sr have c: "k div A < layer_size ?n A (Suc r) \<and> Suc r < row_count t" by simp
  from built_parent[OF inv len r' k] c
  show "parent t (rowStart ?n A r + k) = Inr (rowStart ?n A (Suc r) + k div A)" by auto
  from built_out_edges[OF inv r' k] c
  show "m_out_edges (Tree t ! (rowStart ?n A r + k)) = [rowStart ?n A (Suc r) + k div A]"
    by auto
qed

lemma built_children_parent:
  assumes inv: "tree_inv H A data (rowStart (length data) A (row_count t)) (Tree t)"
    and len: "length (Tree t) = rowStart (length data) A (row_count t)"
    and A: "0 < A"
    and j: "length data \<le> j" "j < length (Tree t)"
  shows "\<exists>cs. children A t j = Inr (map Some cs) \<and> length cs = A \<and>
              (\<forall>i. i < A \<longrightarrow> parent t (cs ! i) = Inr j)"
proof -
  let ?n = "length data"
  from rowStart_decomp[of j ?n A "row_count t"] j(2) len obtain r k where
    rk: "r < row_count t" "k < layer_size ?n A r" "j = rowStart ?n A r + k"
    by auto
  from rk(2,3) j(1) have "r \<noteq> 0" by (cases r) auto
  then obtain r' where r': "r = Suc r'" by (cases r) auto
  define cs where "cs = map (\<lambda>i. rowStart ?n A r' + k * A + i) [0..<A]"
  have ch: "children A t j = Inr (map Some cs)"
    using built_children[OF inv len rk(1,2)] by (simp add: rk(3) r' cs_def)
  have par: "parent t (cs ! i) = Inr j" if "i < A" for i
  proof -
    from child_in_row[of k "layer_size ?n A r'" A i] rk(2) r' that
    have ki: "k * A + i < layer_size ?n A r'" by simp
    from rk(1) r' have rr: "r' < row_count t" by simp
    from that A have "(k * A + i) div A = k" by (simp add: div_eq_block)
    with rk(1,2) r' have c: "(k * A + i) div A < layer_size ?n A (Suc r') \<and> Suc r' < row_count t"
      by simp
    from built_parent[OF inv len rr ki] c \<open>(k * A + i) div A = k\<close>
    have "parent t (rowStart ?n A r' + (k * A + i)) = Inr (rowStart ?n A (Suc r') + k)"
      by auto
    with that show ?thesis by (simp add: cs_def rk(3) r' add.assoc)
  qed
  have "length cs = A" by (simp add: cs_def)
  with ch par show ?thesis by blast
qed

lemma built_parent_children:
  assumes inv: "tree_inv H A data (rowStart (length data) A (row_count t)) (Tree t)"
    and len: "length (Tree t) = rowStart (length data) A (row_count t)"
    and A: "0 < A"
    and i: "i < length (Tree t)" "parent t i = Inr p"
  shows "\<exists>cs. children A t p = Inr (map Some cs) \<and> i \<in> set cs"
proof -
  let ?n = "length data"
  from rowStart_decomp[of i ?n A "row_count t"] i(1) len obtain r k where
    rk: "r < row_count t" "k < layer_size ?n A r" "i = rowStart ?n A r + k"
    by auto
  from built_parent[OF inv len rk(1,2)] i(2) rk(3)
  have c: "k div A < layer_size ?n A (Suc r)" "Suc r < row_count t"
    and p: "p = rowStart ?n A (Suc r) + k div A"
    by (auto split: if_splits)
  define cs where "cs = map (\<lambda>i. rowStart ?n A r + k div A * A + i) [0..<A]"
  have "children A t p = Inr (map Some cs)"
    using built_children[OF inv len c(2,1)] by (simp add: p cs_def)
  moreover have "i = rowStart ?n A r + k div A * A + k mod A" by (simp add: rk(3))
  moreover have "k mod A \<in> set [0..<A]" using A by simp
  ultimately have "children A t p = Inr (map Some cs) \<and> i \<in> set cs"
    unfolding cs_def set_map by blast
  then show ?thesis by blast
qed

lemma parent_chain_step:
  "Suc m < length (parent_chain f t v) \<Longrightarrow>
   parent t (parent_chain f t v ! m) = Inr (parent_chain f t v ! Suc m)"
proof (induction f arbitrary: v m)
  case 0
  then show ?case by simp
next
  case (Suc f)
  show ?case
  proof (cases "parent t v")
    case (Inl e)
    with Suc.prems show ?thesis by simp
  next
    case (Inr p)
    obtain rest where rest: "parent_chain f t p = p # rest"
      using parent_chain_hd by blast
    show ?thesis
    proof (cases m)
      case 0
      with Inr rest show ?thesis by simp
    next
      case (Suc m')
      with Suc.prems Inr have "Suc m' < length (parent_chain f t p)" by simp
      from Suc.IH[OF this] Inr Suc show ?thesis by simp
    qed
  qed
qed

lemma built_hash_path:
  assumes inv: "tree_inv H A data (rowStart (length data) A (row_count t)) (Tree t)"
    and len: "length (Tree t) = rowStart (length data) A (row_count t)"
    and rc: "row_count t = get_merkle_tree_row_count (length data) A"
    and L: "len t = rowStart (length data) A (row_count t)"
    and v: "v < len t"
  shows "hash_path t v = Some (Inr (map (\<lambda>u. m_property (Tree t ! u)) (parent_chain (len t) t v)))"
    and "parent t (last (parent_chain (len t) t v)) = Inl Out_of_bounds"
proof -
  let ?n = "length data"
  from rowStart_decomp[of v ?n A "row_count t"] v L obtain r k where
    rk: "r < row_count t" "k < layer_size ?n A r" "v = rowStart ?n A r + k"
    by auto
  have "row_count t \<le> Suc (len t)"
    using row_count_le_len[of ?n A] rc L by (simp add: len_rowStart)
  then have fuel: "row_count t \<le> Suc (r + len t)" by simp
  from built_chain[OF inv len rk(1,2) fuel] rk(3)
  have c: "\<forall>u \<in> set (parent_chain (len t) t v). u < length (Tree t)"
    "parent t (last (parent_chain (len t) t v)) = Inl Out_of_bounds"
    by simp_all
  from hash_path_chain[OF c]
  show "hash_path t v = Some (Inr (map (\<lambda>u. m_property (Tree t ! u)) (parent_chain (len t) t v)))" .
  from c(2) show "parent t (last (parent_chain (len t) t v)) = Inl Out_of_bounds" .
qed

lemma perfect_leaf_chain:
  assumes inv: "tree_inv H A data (rowStart (length data) A (row_count t)) (Tree t)"
    and len: "length (Tree t) = rowStart (length data) A (row_count t)"
    and rc: "row_count t = get_merkle_tree_row_count (length data) A"
    and L: "len t = rowStart (length data) A (row_count t)"
    and A: "2 \<le> A" and n: "length data = A ^ h" and i: "i < length data"
  shows "last (parent_chain (len t) t i) = len t - 1"
    and "length (parent_chain (len t) t i) = row_count t"
    and "0 < len t"
proof -
  let ?n = "length data"
  from A have A0: "0 < A" by simp
  from rc n row_count_pow[OF A, of h] have rch: "row_count t = Suc h" by simp
  from L rch perfect_len[OF A0, of h] n have last: "len t - 1 = rowStart ?n A h" by simp
  have "Suc h \<le> Suc (len t)"
    using row_count_le_len[of ?n A] rc L rch by (simp add: len_rowStart)
  then have fuel: "h \<le> 0 + len t" by simp
  from i have k: "i < layer_size ?n A 0" by simp
  from perfect_chain[OF inv[unfolded rch] len[unfolded rch] rch n A0 _ k fuel] last rch
  show "last (parent_chain (len t) t i) = len t - 1"
    and "length (parent_chain (len t) t i) = row_count t"
    by simp_all
  from L rch layer_size_pow[OF A0, of h h] n show "0 < len t" by simp
qed

lemma tree6_other_value: "MerkleTree toy_hash 1 2 leaves6_other = Inr tree6_other"
  by code_simp

lemma parent_error: "parent t v = Inl e \<Longrightarrow> e = Out_of_bounds"
  by (auto simp: parent_def split: if_splits list.splits)

text \<open>
  The validation of the specification rejects every element whose hash differs from the
  hash of the leaf, in every tree that the constructor returns.
\<close>

lemma validate_rejects:
  assumes "0 < A" and "length data mod A = 0" and "\<forall>x. length (H x) = esz"
    and "MerkleTree H esz A data = Inr t" and "i < length data"
    and "H x \<noteq> H (data ! i)"
  shows "validate H t i x = Inr False"
proof -
  note f = built_facts[OF assms(1-4)]
  have "0 < row_count t" using row_count_pos[of "length data" A] f(2) by simp
  from built_digest[OF f(5) this, of i] assms(5)
  have dig: "m_property (Tree t ! i) = H (data ! i)" by simp
  have "rowStart (length data) A (Suc 0) \<le> rowStart (length data) A (row_count t)"
    using row_count_pos[of "length data" A] f(2) by (intro rowStart_mono) simp
  with assms(5) f(3,4) have v: "i < length (Tree t)" by simp
  from assms(5,6) f(1) v dig show ?thesis
    by (simp add: validate_def index_read_def get_hash_def)
qed

text \<open>
  What holds when the number of leaves is a power of the arity, and what holds for every
  multiple of the arity: the validation of a leaf, the hash path of a leaf, the node that
  \<open>root\<close> reads, and \<open>parent\<close> against \<open>children\<close>.
\<close>

lemma perfect_validate:
  assumes "2 \<le> Arity" and "length leaves = Arity ^ h" and "0 < h"
    and "\<forall>x. length (hashFn x) = digestSize" and "leafIndex < length leaves"
  shows "\<exists>t. MerkleTree hashFn digestSize Arity leaves = Inr t \<and>
     m_property (Tree t ! leafIndex) = hashFn (leaves ! leafIndex) \<and>
     (\<forall>x. validate hashFn t leafIndex x = Inr (hashFn x = m_property (Tree t ! leafIndex))) \<and>
     validate hashFn t leafIndex (leaves ! leafIndex) = Inr True \<and>
     (\<forall>x. hashFn x \<noteq> hashFn (leaves ! leafIndex) \<longrightarrow>
        validate hashFn t leafIndex x = Inr False)"
proof -
  let ?n = "length leaves"
  from assms(1) have A: "0 < Arity" by simp
  from perfect_precondition[OF assms(1,3)] assms(2)
  have md: "?n mod Arity = 0" by simp
  from MerkleTree_built[OF A md assms(4)] obtain t
    where t: "MerkleTree hashFn digestSize Arity leaves = Inr t" by blast
  note f = built_facts[OF A md assms(4) t]
  note len = f(4)[unfolded f(3)]
  note ch = perfect_leaf_chain[OF f(5) len f(2,3) assms(1,2,5)]
  have "0 < row_count t" using row_count_pos[of ?n Arity] f(2) by simp
  from built_digest[OF f(5) this, of leafIndex] assms(5)
  have dig: "m_property (Tree t ! leafIndex) = hashFn (leaves ! leafIndex)" by simp
  have "rowStart ?n Arity (Suc 0) \<le> rowStart ?n Arity (row_count t)"
    using row_count_pos[of ?n Arity] f(2) by (intro rowStart_mono) simp
  with assms(5) f(3,4) have v: "leafIndex < length (Tree t)" by simp
  have val: "validate hashFn t leafIndex x = Inr (hashFn x = m_property (Tree t ! leafIndex))"
    for x
    using assms(5) f(1) v ch(1,3)
    by (simp add: validate_def index_read_def get_hash_def)
  from t dig val show ?thesis by simp
qed

lemma built_leaf_path:
  assumes "2 \<le> Arity" and "length leaves mod Arity = 0" and "Arity \<le> length leaves"
    and "\<forall>x. length (hashFn x) = digestSize" and "leafIndex < length leaves"
  shows "\<exists>t. MerkleTree hashFn digestSize Arity leaves = Inr t \<and>
     hash_path t leafIndex =
       Some (Inr (map (\<lambda>v. m_property (Tree t ! v)) (parent_chain (len t) t leafIndex))) \<and>
     hd (parent_chain (len t) t leafIndex) = leafIndex \<and>
     (\<forall>m. Suc m < length (parent_chain (len t) t leafIndex) \<longrightarrow>
        parent t (parent_chain (len t) t leafIndex ! m)
          = Inr (parent_chain (len t) t leafIndex ! Suc m)) \<and>
     parent t (last (parent_chain (len t) t leafIndex)) = Inl Out_of_bounds \<and>
     (\<forall>h. length leaves = Arity ^ h \<longrightarrow>
        last (parent_chain (len t) t leafIndex) = len t - 1 \<and>
        length (parent_chain (len t) t leafIndex) = row_count t)"
proof -
  let ?n = "length leaves"
  let ?chain = "\<lambda>t. parent_chain (len t) t leafIndex"
  from assms(1) have A: "0 < Arity" by simp
  from MerkleTree_built[OF A assms(2,4)] obtain t
    where t: "MerkleTree hashFn digestSize Arity leaves = Inr t" by blast
  note f = built_facts[OF A assms(2,4) t]
  note len = f(4)[unfolded f(3)]
  have "rowStart ?n Arity (Suc 0) \<le> rowStart ?n Arity (row_count t)"
    using row_count_pos[of ?n Arity] f(2) by (intro rowStart_mono) simp
  with assms(5) f(3) have v: "leafIndex < len t" by simp
  note hp = built_hash_path[OF f(5) len f(2,3) v]
  have hd: "hd (?chain t) = leafIndex"
    using parent_chain_hd[of "len t" t leafIndex] by auto
  have perfect: "last (?chain t) = len t - 1 \<and> length (?chain t) = row_count t"
    if n: "?n = Arity ^ h" for h
  proof -
    from f(2) n row_count_pow[OF assms(1), of h] have rc: "row_count t = Suc h" by simp
    from f(3) rc perfect_len[OF A, of h] n have last: "len t - 1 = rowStart ?n Arity h" by simp
    have "Suc h \<le> Suc (len t)"
      using row_count_le_len[of ?n Arity] f(2,3) rc by (simp add: len_rowStart)
    then have fuel: "h \<le> 0 + len t" by simp
    from assms(5) have k: "leafIndex < layer_size ?n Arity 0" by simp
    from perfect_chain[OF f(5)[unfolded rc] len[unfolded rc] rc n A _ k fuel] last rc
    show ?thesis by simp
  qed
  from t hp hd parent_chain_step[of _ "len t" t leafIndex] perfect show ?thesis
    by blast
qed

lemma built_root:
  assumes "2 \<le> Arity" and "length leaves mod Arity = 0" and "Arity \<le> length leaves"
    and "\<forall>x. length (hashFn x) = digestSize"
  shows "\<exists>t. MerkleTree hashFn digestSize Arity leaves = Inr t \<and>
           0 < len t \<and> length (Tree t) = len t \<and>
           root t = Inr (m_property (Tree t ! (len t - 1))) \<and>
           root t = index_read t (get_len t - 1) \<and>
           m_out_edges (Tree t ! (len t - 1)) = []"
proof -
  from assms(1) have A: "0 < Arity" by simp
  from MerkleTree_built[OF A assms(2,4)] obtain t
    where t: "MerkleTree hashFn digestSize Arity leaves = Inr t" by blast
  note f = built_facts[OF A assms(2,4) t]
  from assms(1,3) have "0 < length leaves" by linarith
  from built_len_pos[OF this, of Arity] f(2,3) have pos: "0 < len t" by simp
  then have pos': "0 < rowStart (length leaves) Arity (row_count t)" using f(3) by simp
  from built_last_out_edges[OF f(5) pos'] f(3)
  have "m_out_edges (Tree t ! (len t - 1)) = []" by simp
  with t pos f(4) show ?thesis
    by (simp add: root_def get_hash_def index_read_def get_len_def)
qed

lemma built_inverse:
  assumes "2 \<le> Arity" and "length leaves mod Arity = 0" and "Arity \<le> length leaves"
    and "\<forall>x. length (hashFn x) = digestSize"
  shows "\<exists>t. MerkleTree hashFn digestSize Arity leaves = Inr t \<and>
     (\<forall>j. leafs t \<le> j \<and> j < len t \<longrightarrow>
        (\<exists>cs. children Arity t j = Inr (map Some cs) \<and> length cs = Arity \<and>
              (\<forall>k. k < Arity \<longrightarrow> parent t (cs ! k) = Inr j))) \<and>
     (\<forall>i p. i < len t \<and> parent t i = Inr p \<longrightarrow>
        (\<exists>cs. children Arity t p = Inr (map Some cs) \<and> i \<in> set cs)) \<and>
     (\<forall>h. length leaves = Arity ^ h \<longrightarrow>
        (\<forall>i. i < len t - 1 \<longrightarrow> (\<exists>p. parent t i = Inr p)))"
proof -
  let ?n = "length leaves"
  from assms(1) have A: "0 < Arity" by simp
  from MerkleTree_built[OF A assms(2,4)] obtain t
    where t: "MerkleTree hashFn digestSize Arity leaves = Inr t" by blast
  note f = built_facts[OF A assms(2,4) t]
  note len = f(4)[unfolded f(3)]
  have a: "\<exists>cs. children Arity t j = Inr (map Some cs) \<and> length cs = Arity \<and>
              (\<forall>k. k < Arity \<longrightarrow> parent t (cs ! k) = Inr j)"
    if "leafs t \<le> j" "j < len t" for j
    using built_children_parent[OF f(5) len A, of j] that f(1,4) by simp
  have b: "\<exists>cs. children Arity t p = Inr (map Some cs) \<and> i \<in> set cs"
    if "i < len t" "parent t i = Inr p" for i p
    using built_parent_children[OF f(5) len A, of i p] that f(4) by simp
  have c: "\<exists>p. parent t i = Inr p" if n: "?n = Arity ^ h" and i: "i < len t - 1" for h i
  proof -
    from f(2) n row_count_pow[OF assms(1), of h] have rc: "row_count t = Suc h" by simp
    from f(3) rc perfect_len[OF A, of h] n have "len t - 1 = rowStart ?n Arity h" by simp
    with rowStart_decomp[of i ?n Arity h] i obtain r k where
      rk: "r < h" "k < layer_size ?n Arity r" "i = rowStart ?n Arity r + k"
      by auto
    from perfect_parent(2)[OF f(5) len rc n A rk(1,2)] rk(3) show ?thesis by blast
  qed
  from t a b c show ?thesis by blast
qed

section \<open>The claims\<close>




text \<open>
  C3, as the constructor has it. Its only check is the assertion of line 104, that the
  number of leaves is a multiple of the arity; it is a debug assertion, and the model is
  the build in which assertions are enabled. In that build the construction ends with
  \<open>Wrong_leafs_number\<close> for exactly the inputs that violate the assertion, whatever the
  hash is, so before any hashing, and no tree is returned then.
\<close>

theorem C3_wrong_leafs_number:
  assumes "0 < Arity"
  shows "MerkleTree hashFn digestSize Arity leaves = Inl Wrong_leafs_number \<longleftrightarrow>
         length leaves mod Arity \<noteq> 0"
proof
  assume "MerkleTree hashFn digestSize Arity leaves = Inl Wrong_leafs_number"
  from MerkleTree_error[OF this] show "length leaves mod Arity \<noteq> 0" by simp
next
  assume "length leaves mod Arity \<noteq> 0"
  with assms show "MerkleTree hashFn digestSize Arity leaves = Inl Wrong_leafs_number"
    by (simp add: MerkleTree_def)
qed

theorem C3_wrong_leafs_number_witness:
  "length [[0x30], [0x31], [0x32 :: byte]] mod 2 \<noteq> 0 \<and>
   MerkleTree toy_hash 1 2 [[0x30], [0x31], [0x32]] = Inl Wrong_leafs_number"
  using C3_wrong_leafs_number[of 2 toy_hash 1 "[[0x30], [0x31], [0x32]]"] by simp

text \<open>
  C3 as stated fails: no leaves at all are fewer than the arity 2, they pass the
  assertion, and the construction does not end with \<open>Wrong_leafs_number\<close>. This rests
  on \<open>MerkleTree_error\<close> and \<open>rows_error\<close>, which hold for every number of rows and
  of vertices, so on no value of the row arithmetic.
\<close>

theorem C3_no_leaves_counterexample:
  "length ([] :: byte list list) < 2 \<and> length ([] :: byte list list) mod 2 = 0 \<and>
   MerkleTree toy_hash 1 2 [] \<noteq> Inl Wrong_leafs_number"
  using MerkleTree_error[of toy_hash 1 2 "[]" Wrong_leafs_number] by auto

text \<open>
  C4, at an input where the constructor leaves a node of an inner row without a parent.
  In the tree of 6 leaves of arity 2, \<open>hash_path\<close> of leaf 4 returns the digests of the
  nodes 4 and 8 and ends there, since node 8 has no out-edge; the digest of the root,
  node 9, is not in the path.
\<close>

theorem C4_hash_path_orphan_leaf:
  "MerkleTree toy_hash 1 2 leaves6 = Inr tree6 \<and> (4::nat) < leafs tree6 \<and>
   hash_path tree6 4 = Some (Inr [[74], [108]]) \<and>
   m_property (Tree tree6 ! 4) = [74] \<and> m_property (Tree tree6 ! 8) = [108] \<and>
   m_out_edges (Tree tree6 ! 8) = [] \<and> len tree6 - 1 = 9 \<and> root tree6 = Inr [187]"
  unfolding tree6_value
  by (simp add: tree6_def hash_path_def hash_path_loop.simps root_def get_hash_def)

text \<open>
  C5, at an input where the constructor leaves a node of an inner row without a parent.
  In the tree of 6 leaves of arity 2, \<open>root\<close> returns the digest of the final node 9.
  The children of node 9 are the nodes 6 and 7, whose children are the leaves 0 to 3; the
  parent chains of the leaves 4 and 5 end at node 8. With other bytes in the leaves 4 and
  5, \<open>root\<close> returns the same digest: node 9 is not the root of a tree over all six
  leaves.
\<close>

theorem C5_root_misses_leaves:
  "MerkleTree toy_hash 1 2 leaves6 = Inr tree6 \<and> len tree6 - 1 = 9 \<and>
   root tree6 = Inr [187] \<and> children 2 tree6 9 = Inr [Some 6, Some 7] \<and>
   children 2 tree6 6 = Inr [Some 0, Some 1] \<and> children 2 tree6 7 = Inr [Some 2, Some 3] \<and>
   parent_chain (len tree6) tree6 4 = [4, 8] \<and> parent_chain (len tree6) tree6 5 = [5, 8] \<and>
   take 4 leaves6_other = take 4 leaves6 \<and> leaves6_other ! 4 \<noteq> leaves6 ! 4 \<and>
   leaves6_other ! 5 \<noteq> leaves6 ! 5 \<and>
   MerkleTree toy_hash 1 2 leaves6_other = Inr tree6_other \<and> root tree6_other = Inr [187]"
proof -
  have a: "len tree6 - 1 = 9" "root tree6 = Inr [187]"
    "children 2 tree6 9 = Inr [Some 6, Some 7]"
    "children 2 tree6 6 = Inr [Some 0, Some 1]" "children 2 tree6 7 = Inr [Some 2, Some 3]"
    by (simp_all add: tree6_def root_def get_hash_def children_def)
  have b: "parent_chain (len tree6) tree6 4 = [4, 8]" "parent_chain (len tree6) tree6 5 = [5, 8]"
    by code_simp+
  have c: "take 4 leaves6_other = take 4 leaves6" "leaves6_other ! 4 \<noteq> leaves6 ! 4"
    "leaves6_other ! 5 \<noteq> leaves6 ! 5"
    by (simp_all add: leaves6_def leaves6_other_def)
  have d: "root tree6_other = Inr [187]"
    by (simp add: tree6_other_def root_def get_hash_def)
  show ?thesis
    by (intro conjI tree6_value tree6_other_value a b c d)
qed

text \<open>
  C6. For an arity of at least 2 the row count is the number of rows up to the first one
  with at most one element, the rows being the leaf count divided by the arity again and
  again (\<open>h + 1\<close> rows, the last with one element, for \<open>A ^ h\<close> leaves); the total
  node count is the sum of the element counts of the rows; the constructor stores and
  the getters return these two values; for 8 leaves of arity 2 they are 4 and 15, for 9
  leaves of arity 3 they are 3 and 13.
\<close>

theorem C6_row_count_len:
  "(2 \<le> A \<longrightarrow>
      layer_size n A (get_merkle_tree_row_count n A - 1) \<le> 1 \<and>
      (\<forall>m. m < get_merkle_tree_row_count n A - 1 \<longrightarrow> 1 < layer_size n A m) \<and>
      (\<forall>h. n = A ^ h \<longrightarrow> get_merkle_tree_row_count n A = Suc h \<and> layer_size n A h = 1)) \<and>
   get_merkle_tree_len n A = (\<Sum>r<get_merkle_tree_row_count n A. layer_size n A r) \<and>
   ((\<forall>x. length (H x) = esz) \<and> 0 < A \<and> length data mod A = 0 \<longrightarrow>
      (\<exists>t. MerkleTree H esz A data = Inr t \<and>
           get_row_count t = get_merkle_tree_row_count (length data) A \<and>
           get_len t = get_merkle_tree_len (length data) A \<and>
           get_leafs t = length data)) \<and>
   get_merkle_tree_row_count 8 2 = 4 \<and> get_merkle_tree_len 8 2 = 15 \<and>
   get_merkle_tree_row_count 9 3 = 3 \<and> get_merkle_tree_len 9 3 = 13"
proof -
  have a: "2 \<le> A \<longrightarrow>
      layer_size n A (get_merkle_tree_row_count n A - 1) \<le> 1 \<and>
      (\<forall>m. m < get_merkle_tree_row_count n A - 1 \<longrightarrow> 1 < layer_size n A m) \<and>
      (\<forall>h. n = A ^ h \<longrightarrow> get_merkle_tree_row_count n A = Suc h \<and> layer_size n A h = 1)"
  proof (intro impI conjI allI)
    assume A: "2 \<le> A"
    from row_count_least[OF A, of n]
    show "layer_size n A (get_merkle_tree_row_count n A - 1) \<le> 1" by blast
    fix m assume "m < get_merkle_tree_row_count n A - 1"
    with row_count_least[OF A, of n] show "1 < layer_size n A m" by blast
  next
    fix h assume A: "2 \<le> A" and n: "n = A ^ h"
    show "get_merkle_tree_row_count n A = Suc h"
      unfolding n by (rule row_count_pow[OF A])
    from A have "0 < A" by simp
    from layer_size_pow[OF this, of h h] show "layer_size n A h = 1"
      unfolding n by simp
  qed
  have b: "get_merkle_tree_len n A = (\<Sum>r<get_merkle_tree_row_count n A. layer_size n A r)"
    by (simp add: len_rowStart rowStart_sum)
  have c: "(\<forall>x. length (H x) = esz) \<and> 0 < A \<and> length data mod A = 0 \<longrightarrow>
      (\<exists>t. MerkleTree H esz A data = Inr t \<and>
           get_row_count t = get_merkle_tree_row_count (length data) A \<and>
           get_len t = get_merkle_tree_len (length data) A \<and>
           get_leafs t = length data)"
  proof (intro impI, elim conjE)
    assume h: "\<forall>x. length (H x) = esz" "0 < A" "length data mod A = 0"
    from MerkleTree_built[OF h(2,3,1)] show "\<exists>t. MerkleTree H esz A data = Inr t \<and>
           get_row_count t = get_merkle_tree_row_count (length data) A \<and>
           get_len t = get_merkle_tree_len (length data) A \<and>
           get_leafs t = length data"
      by (auto simp: get_row_count_def get_len_def get_leafs_def)
  qed
  have d1: "get_merkle_tree_row_count 8 2 = 4" by code_simp
  have d2: "get_merkle_tree_len 8 2 = 15" by code_simp
  have d3: "get_merkle_tree_row_count 9 3 = 3" by code_simp
  have d4: "get_merkle_tree_len 9 3 = 13" by code_simp
  show ?thesis
    by (intro conjI a b c d1 d2 d3 d4)
qed

theorem C6_row_count_len_witness:
  "map_sum id get_row_count (MerkleTree toy_hash 1 2 leaves8) = Inr 4 \<and>
   map_sum id get_len (MerkleTree toy_hash 1 2 leaves8) = Inr 15 \<and>
   map_sum id get_row_count (MerkleTree toy_hash 1 3 leaves9) = Inr 3 \<and>
   map_sum id get_len (MerkleTree toy_hash 1 3 leaves9) = Inr 13 \<and>
   layer_size 8 2 3 = 1 \<and> layer_size 9 3 2 = 1"
proof -
  have l8: "length leaves8 = 8" and l9: "length leaves9 = 9"
    by (simp_all add: leaves8_def leaves9_def)
  note w8 = C6_row_count_len[of 2 8 toy_hash 1 leaves8]
  note w9 = C6_row_count_len[of 3 9 toy_hash 1 leaves9]
  note v = w8[THEN conjunct2, THEN conjunct2, THEN conjunct2]
  from w8[THEN conjunct2, THEN conjunct2, THEN conjunct1] toy_hash_size l8 v
  have t8: "\<exists>t. MerkleTree toy_hash 1 2 leaves8 = Inr t \<and> get_row_count t = 4 \<and> get_len t = 15"
    by auto
  from w9[THEN conjunct2, THEN conjunct2, THEN conjunct1] toy_hash_size l9 v
  have t9: "\<exists>t. MerkleTree toy_hash 1 3 leaves9 = Inr t \<and> get_row_count t = 3 \<and> get_len t = 13"
    by auto
  have p8: "(8::nat) = 2 ^ 3" and p9: "(9::nat) = 3 ^ 2" by simp_all
  note z8 = w8[THEN conjunct1, THEN mp, OF order_refl, THEN conjunct2, THEN conjunct2]
  have "(2::nat) \<le> 3" by simp
  note z9 = w9[THEN conjunct1, THEN mp, OF this, THEN conjunct2, THEN conjunct2]
  from z8[THEN spec, of 3, THEN mp, OF p8] have "layer_size 8 2 3 = 1" by (rule conjunct2)
  moreover
  from z9[THEN spec, of 2, THEN mp, OF p9] have "layer_size 9 3 2 = 1" by (rule conjunct2)
  moreover from t8 have "map_sum id get_row_count (MerkleTree toy_hash 1 2 leaves8) = Inr 4"
    "map_sum id get_len (MerkleTree toy_hash 1 2 leaves8) = Inr 15" by auto
  moreover from t9 have "map_sum id get_row_count (MerkleTree toy_hash 1 3 leaves9) = Inr 3"
    "map_sum id get_len (MerkleTree toy_hash 1 3 leaves9) = Inr 13" by auto
  ultimately show ?thesis by (intro conjI)
qed

text \<open>
  C7, as the code has it. \<open>hash_path\<close> and \<open>operator[]\<close> check no index. In every
  tree built from leaves whose number is a multiple of the arity and at least the arity
  there are more nodes than leaves, and for every index below the number of nodes, of a
  leaf or not, \<open>operator[]\<close> gives the digest stored there and \<open>hash_path\<close> returns
  the digests of the node and of its successive parents, in that order, up to the first
  node that has no parent.
\<close>

theorem C7_unchecked_index:
  assumes "2 \<le> Arity" and "length leaves mod Arity = 0" and "Arity \<le> length leaves"
    and "\<forall>x. length (hashFn x) = digestSize"
  shows "\<exists>t. MerkleTree hashFn digestSize Arity leaves = Inr t \<and>
     length (Tree t) = len t \<and> leafs t < len t \<and>
     (\<forall>i. i < len t \<longrightarrow>
        index_read t i = Inr (m_property (Tree t ! i)) \<and>
        hash_path t i =
          Some (Inr (map (\<lambda>v. m_property (Tree t ! v)) (parent_chain (len t) t i))) \<and>
        hd (parent_chain (len t) t i) = i \<and>
        (\<forall>m. Suc m < length (parent_chain (len t) t i) \<longrightarrow>
           parent t (parent_chain (len t) t i ! m) = Inr (parent_chain (len t) t i ! Suc m)) \<and>
        parent t (last (parent_chain (len t) t i)) = Inl Out_of_bounds)"
proof -
  let ?n = "length leaves"
  from assms(1) have A: "0 < Arity" by simp
  from MerkleTree_built[OF A assms(2,4)] obtain t
    where t: "MerkleTree hashFn digestSize Arity leaves = Inr t" by blast
  note f = built_facts[OF A assms(2,4) t]
  note len = f(4)[unfolded f(3)]
  have more: "leafs t < len t"
  proof -
    from assms(1,3) have n1: "\<not> (?n \<le> 1 \<or> Arity \<le> 1)" by simp
    then have "get_merkle_tree_row_count ?n Arity
                 = Suc (get_merkle_tree_row_count (?n div Arity) Arity)"
      by (simp add: get_merkle_tree_row_count.simps[of ?n Arity])
    then obtain q where q: "row_count t = Suc (Suc q)"
      using row_count_pos[of "?n div Arity" Arity] f(2)
      by (cases "get_merkle_tree_row_count (?n div Arity) Arity") auto
    have "rowStart ?n Arity (Suc (Suc 0)) \<le> rowStart ?n Arity (row_count t)"
      unfolding q by (intro rowStart_mono) simp
    moreover from assms(1,3) have "0 < ?n div Arity"
      by (simp add: div_greater_zero_iff)
    ultimately show ?thesis using f(1,3) by simp
  qed
  have c: "index_read t i = Inr (m_property (Tree t ! i)) \<and>
        hash_path t i =
          Some (Inr (map (\<lambda>v. m_property (Tree t ! v)) (parent_chain (len t) t i))) \<and>
        hd (parent_chain (len t) t i) = i \<and>
        (\<forall>m. Suc m < length (parent_chain (len t) t i) \<longrightarrow>
           parent t (parent_chain (len t) t i ! m) = Inr (parent_chain (len t) t i ! Suc m)) \<and>
        parent t (last (parent_chain (len t) t i)) = Inl Out_of_bounds" if "i < len t" for i
  proof -
    note hp = built_hash_path[OF f(5) len f(2,3) that]
    have hd: "hd (parent_chain (len t) t i) = i"
      using parent_chain_hd[of "len t" t i] by auto
    have rd: "index_read t i = Inr (m_property (Tree t ! i))"
      using that f(4) by (simp add: index_read_def get_hash_def)
    from rd hp hd parent_chain_step[of _ "len t" t i] show ?thesis by blast
  qed
  from t f(4) more c show ?thesis by blast
qed

theorem C7_unchecked_index_witness:
  "MerkleTree toy_hash 1 2 leaves4 = Inr tree4 \<and> leafs tree4 = 4 \<and> len tree4 = 7 \<and>
   index_read tree4 5 = Inr [100] \<and> hash_path tree4 5 = Some (Inr [[100], [187]]) \<and>
   hash_path tree4 1 = Some (Inr [[71], [92], [187]]) \<and>
   parent_chain (len tree4) tree4 5 = [5, 6] \<and> parent tree4 5 = Inr 6"
proof -
  have h: "(2::nat) \<le> 2" "length leaves4 mod 2 = 0" "2 \<le> length leaves4"
    by (simp_all add: leaves4_def)
  from C7_unchecked_index[of 2 leaves4 toy_hash 1, OF h toy_hash_size]
  obtain t where t: "MerkleTree toy_hash 1 2 leaves4 = Inr t"
    and c: "\<forall>i. i < len t \<longrightarrow>
        index_read t i = Inr (m_property (Tree t ! i)) \<and>
        hash_path t i =
          Some (Inr (map (\<lambda>v. m_property (Tree t ! v)) (parent_chain (len t) t i))) \<and>
        hd (parent_chain (len t) t i) = i \<and>
        (\<forall>m. Suc m < length (parent_chain (len t) t i) \<longrightarrow>
           parent t (parent_chain (len t) t i ! m) = Inr (parent_chain (len t) t i ! Suc m)) \<and>
        parent t (last (parent_chain (len t) t i)) = Inl Out_of_bounds"
    by blast
  from t[unfolded tree4_value] have tv: "t = tree4" by simp
  have v: "leafs tree4 = 4" "len tree4 = 7" by (simp_all add: tree4_def)
  have ch5: "parent_chain (len tree4) tree4 5 = [5, 6]" by code_simp
  have ch1: "parent_chain (len tree4) tree4 1 = [1, 4, 6]" by code_simp
  have i5: "(5::nat) < len tree4" and i1: "(1::nat) < len tree4" by (simp_all add: v)
  note c5 = c[unfolded tv, THEN spec, of 5, THEN mp, OF i5]
  note c1 = c[unfolded tv, THEN spec, of 1, THEN mp, OF i1]
  from c5[THEN conjunct1] have r5: "index_read tree4 5 = Inr [100]" by (simp add: tree4_def)
  from c5[THEN conjunct2, THEN conjunct1] ch5
  have p5: "hash_path tree4 5 = Some (Inr [[100], [187]])" by (simp add: tree4_def)
  from c1[THEN conjunct2, THEN conjunct1] ch1
  have p1: "hash_path tree4 1 = Some (Inr [[71], [92], [187]])" by (simp add: tree4_def)
  have "Suc 0 < length (parent_chain (len tree4) tree4 5)" by (simp add: ch5)
  from c5[THEN conjunct2, THEN conjunct2, THEN conjunct2, THEN conjunct1, THEN spec, of 0,
      THEN mp, OF this] ch5
  have pp: "parent tree4 5 = Inr 6" by simp
  from tree4_value v r5 p5 p1 ch5 pp show ?thesis by (intro conjI)
qed

text \<open>
  C7 as stated fails: in the tree of 2 leaves the index 2 is outside the leaves, and
  \<open>hash_path\<close> returns a path for it.
\<close>

theorem C7_inner_node_counterexample:
  "MerkleTree toy_hash 1 2 leaves2 = Inr tree2 \<and> \<not> (2::nat) < leafs tree2 \<and>
   hash_path tree2 2 = Some (Inr [[92]]) \<and> index_read tree2 2 = Inr [92]"
  unfolding tree2_value
  by (simp add: tree2_def hash_path_def hash_path_loop.simps index_read_def get_hash_def)

text \<open>
  C8, as the code has it. \<open>parent\<close> returns the target of the first out-edge and checks
  nothing; its only failure is the unchecked access. In every tree built from leaves whose
  number is a multiple of the arity and at least the arity, for the node at position \<open>k\<close>
  of a row \<open>r\<close> such that row \<open>r + 1\<close> has a position \<open>k div Arity\<close>, \<open>parent\<close>
  returns the node at that position, the target of the only out-edge. When the number of
  leaves is a power of the arity, every node but the last, \<open>len - 1\<close>, is such a node.
  The last node, the root, has no out-edge, and \<open>parent\<close> reads the first one all the
  same.
\<close>

theorem C8_parent:
  assumes "2 \<le> Arity" and "length leaves mod Arity = 0" and "Arity \<le> length leaves"
    and "\<forall>x. length (hashFn x) = digestSize"
  shows "\<exists>t. MerkleTree hashFn digestSize Arity leaves = Inr t \<and>
     (\<forall>r k. Suc r < row_count t \<and> k < layer_size (length leaves) Arity r \<and>
            k div Arity < layer_size (length leaves) Arity (Suc r) \<longrightarrow>
        parent t (rowStart (length leaves) Arity r + k)
          = Inr (rowStart (length leaves) Arity (Suc r) + k div Arity) \<and>
        m_out_edges (Tree t ! (rowStart (length leaves) Arity r + k))
          = [rowStart (length leaves) Arity (Suc r) + k div Arity]) \<and>
     (\<forall>h. length leaves = Arity ^ h \<longrightarrow>
        row_count t = Suc h \<and> len t - 1 = rowStart (length leaves) Arity h \<and>
        (\<forall>i. i < len t - 1 \<longrightarrow>
           (\<exists>r k. Suc r < row_count t \<and> k < layer_size (length leaves) Arity r \<and>
                  k div Arity < layer_size (length leaves) Arity (Suc r) \<and>
                  i = rowStart (length leaves) Arity r + k))) \<and>
     0 < len t \<and> m_out_edges (Tree t ! (len t - 1)) = [] \<and>
     parent t (len t - 1) = Inl Out_of_bounds \<and>
     (\<forall>v e. parent t v = Inl e \<longrightarrow> e = Out_of_bounds)"
proof -
  let ?n = "length leaves"
  from assms(1) have A: "0 < Arity" by simp
  from MerkleTree_built[OF A assms(2,4)] obtain t
    where t: "MerkleTree hashFn digestSize Arity leaves = Inr t" by blast
  note f = built_facts[OF A assms(2,4) t]
  note len = f(4)[unfolded f(3)]
  from assms(1,3) have "0 < ?n" by linarith
  from built_len_pos[OF this, of Arity] f(2,3) have pos: "0 < len t" by simp
  then have pos': "0 < rowStart ?n Arity (row_count t)" using f(3) by simp
  have par: "parent t (rowStart ?n Arity r + k) = Inr (rowStart ?n Arity (Suc r) + k div Arity) \<and>
        m_out_edges (Tree t ! (rowStart ?n Arity r + k)) = [rowStart ?n Arity (Suc r) + k div Arity]"
    if "Suc r < row_count t" "k < layer_size ?n Arity r"
      "k div Arity < layer_size ?n Arity (Suc r)" for r k
  proof -
    from that(1) have r: "r < row_count t" by simp
    from built_parent[OF f(5) len r that(2)] built_out_edges[OF f(5) r that(2)] that(1,3)
    show ?thesis by simp
  qed
  have perfect: "row_count t = Suc h \<and> len t - 1 = rowStart ?n Arity h \<and>
        (\<forall>i. i < len t - 1 \<longrightarrow>
           (\<exists>r k. Suc r < row_count t \<and> k < layer_size ?n Arity r \<and>
                  k div Arity < layer_size ?n Arity (Suc r) \<and> i = rowStart ?n Arity r + k))"
    if n: "?n = Arity ^ h" for h
  proof -
    from f(2) n row_count_pow[OF assms(1), of h] have rc: "row_count t = Suc h" by simp
    from f(3) rc perfect_len[OF A, of h] n
    have last: "len t - 1 = rowStart ?n Arity h" by simp
    have cover: "\<exists>r k. Suc r < row_count t \<and> k < layer_size ?n Arity r \<and>
                  k div Arity < layer_size ?n Arity (Suc r) \<and> i = rowStart ?n Arity r + k"
      if i: "i < len t - 1" for i
    proof -
      from rowStart_decomp[of i ?n Arity h] i last obtain r k where
        rk: "r < h" "k < layer_size ?n Arity r" "i = rowStart ?n Arity r + k"
        by auto
      from perfect_parent(1)[OF f(5) len rc n A rk(1,2)] rk rc show ?thesis by auto
    qed
    from rc last cover show ?thesis by blast
  qed
  have e: "m_out_edges (Tree t ! (len t - 1)) = []"
    using built_last_out_edges[OF f(5) pos'] f(3) by simp
  with pos f(4) have pe: "parent t (len t - 1) = Inl Out_of_bounds"
    by (simp add: parent_def)
  have err: "\<forall>v e. parent t v = Inl e \<longrightarrow> e = Out_of_bounds"
    using parent_error by blast
  from t par perfect pos e pe err show ?thesis by blast
qed

theorem C8_parent_witness:
  "MerkleTree toy_hash 1 2 leaves4 = Inr tree4 \<and> parent tree4 3 = Inr 5 \<and>
   parent tree4 5 = Inr 6 \<and> len tree4 - 1 = 6 \<and> m_out_edges (Tree tree4 ! 6) = [] \<and>
   parent tree4 6 = Inl Out_of_bounds"
proof -
  have h: "(2::nat) \<le> 2" "length leaves4 mod 2 = 0" "2 \<le> length leaves4"
    by (simp_all add: leaves4_def)
  from C8_parent[of 2 leaves4 toy_hash 1, OF h toy_hash_size]
  obtain t where t: "MerkleTree toy_hash 1 2 leaves4 = Inr t"
    and p: "\<forall>r k. Suc r < row_count t \<and> k < layer_size (length leaves4) 2 r \<and>
            k div 2 < layer_size (length leaves4) 2 (Suc r) \<longrightarrow>
        parent t (rowStart (length leaves4) 2 r + k)
          = Inr (rowStart (length leaves4) 2 (Suc r) + k div 2) \<and>
        m_out_edges (Tree t ! (rowStart (length leaves4) 2 r + k))
          = [rowStart (length leaves4) 2 (Suc r) + k div 2]"
    and e: "m_out_edges (Tree t ! (len t - 1)) = []"
    and pe: "parent t (len t - 1) = Inl Out_of_bounds"
    by blast
  from t[unfolded tree4_value] have tv: "t = tree4" by simp
  have n: "length leaves4 = 4" by (simp add: leaves4_def)
  have rc: "row_count tree4 = 3" and l6: "len tree4 - 1 = 6" by (simp_all add: tree4_def)
  have rs: "rowStart 4 2 0 = 0" "rowStart 4 2 1 = 4" "rowStart 4 2 2 = 6"
    "layer_size 4 2 0 = 4" "layer_size 4 2 1 = 2" "layer_size 4 2 2 = 1"
    by code_simp+
  have c0: "Suc 0 < row_count tree4 \<and> 3 < layer_size (length leaves4) 2 0 \<and>
            3 div 2 < layer_size (length leaves4) 2 (Suc 0)"
    using rs by (simp add: n rc)
  have c1: "Suc 1 < row_count tree4 \<and> 1 < layer_size (length leaves4) 2 1 \<and>
            1 div 2 < layer_size (length leaves4) 2 (Suc 1)"
    using rs by (simp add: n rc numeral_2_eq_2)
  from p[unfolded tv, THEN spec, of 0, THEN spec, of 3, THEN mp, OF c0, THEN conjunct1]
  have p3: "parent tree4 3 = Inr 5" using rs by (simp add: n)
  from p[unfolded tv, THEN spec, of 1, THEN spec, of 1, THEN mp, OF c1, THEN conjunct1]
  have p5: "parent tree4 5 = Inr 6" using rs by (simp add: n numeral_2_eq_2)
  from e[unfolded tv l6] have e6: "m_out_edges (Tree tree4 ! 6) = []" .
  from pe[unfolded tv l6] have pe6: "parent tree4 6 = Inl Out_of_bounds" .
  from tree4_value p3 p5 l6 e6 pe6 show ?thesis by (intro conjI)
qed

text \<open>
  C8 as stated fails: on the root of the tree of 2 leaves, \<open>parent\<close> reports no error
  of its own; it reads the first out-edge of a node that has none.
\<close>

theorem C8_root_unchecked_counterexample:
  "MerkleTree toy_hash 1 2 leaves2 = Inr tree2 \<and> len tree2 - 1 = 2 \<and>
   m_out_edges (Tree tree2 ! 2) = [] \<and> parent tree2 2 = Inl Out_of_bounds"
  unfolding tree2_value by (simp add: tree2_def parent_def)

text \<open>
  C9, as the code has it. \<open>root\<close>, \<open>children\<close>, \<open>parent\<close>, \<open>hash_path\<close> and the getters
  return a value computed from the tree and write nothing, which is why they are
  functions of the tree here. The one write access is the reference that \<open>operator[]\<close>
  returns: an assignment through it replaces the digest at that index and leaves the
  counts, the edges (so \<open>parent\<close> and \<open>children\<close>) and every other digest as they were.
\<close>

theorem C9_index_assign_frame:
  assumes "index_assign t idx d = Inr t'"
  shows "leafs t' = leafs t \<and> len t' = len t \<and> row_count t' = row_count t \<and>
         length (Tree t') = length (Tree t) \<and>
         (\<forall>v. parent t' v = parent t v) \<and>
         (\<forall>v. children Arity t' v = children Arity t v) \<and>
         index_read t' idx = Inr d \<and>
         (\<forall>v. v \<noteq> idx \<longrightarrow> index_read t' v = index_read t v)"
proof -
  from assms have idx: "idx < length (Tree t)"
    and t': "t' = t\<lparr>Tree := (Tree t)[idx := (Tree t ! idx)\<lparr>m_property := d\<rparr>]\<rparr>"
    by (auto simp: index_assign_def put_hash_def split: if_splits)
  have "parent t' v = parent t v" for v
    using idx by (cases "v = idx") (simp_all add: t' parent_def)
  moreover have "children Arity t' v = children Arity t v" for v
    using idx by (cases "v = idx") (simp_all add: t' children_def)
  moreover have "index_read t' v = index_read t v" if "v \<noteq> idx" for v
    using that by (simp add: t' index_read_def get_hash_def)
  moreover have "index_read t' idx = Inr d"
    using idx by (simp add: t' index_read_def get_hash_def)
  ultimately show ?thesis by (simp add: t')
qed

theorem C9_index_assign_frame_witness:
  "index_assign tree2 2 [0] = Inr tree2_overwritten \<and>
   len tree2_overwritten = len tree2 \<and>
   parent tree2_overwritten 0 = parent tree2 0 \<and>
   children 2 tree2_overwritten 2 = children 2 tree2 2 \<and>
   index_read tree2_overwritten 2 = Inr [0] \<and>
   index_read tree2_overwritten 1 = index_read tree2 1"
proof -
  have a: "index_assign tree2 2 [0] = Inr tree2_overwritten"
    by (simp add: index_assign_def put_hash_def tree2_def tree2_overwritten_def)
  from C9_index_assign_frame[OF a, of 2] a show ?thesis by simp
qed

text \<open>
  C9 as stated fails: after \<^verbatim>\<open>tree[2] = {0}\<close> on the tree of 2 leaves, \<open>root\<close> returns
  another digest than before.
\<close>

theorem C9_overwrite_counterexample:
  "MerkleTree toy_hash 1 2 leaves2 = Inr tree2 \<and>
   index_assign tree2 2 [0] = Inr tree2_overwritten \<and>
   root tree2 = Inr [92] \<and> root tree2_overwritten = Inr [0]"
  unfolding tree2_value
  by (simp add: tree2_def tree2_overwritten_def index_assign_def put_hash_def root_def
      get_hash_def)

text \<open>
  C10, at an input where the constructor leaves a node of an inner row without a parent.
  In the tree of 6 leaves of arity 2, node 8 is not the last node, it has the children 4
  and 5, and it has no out-edge: \<open>parent\<close> has nothing to return for it, and it is not
  among the children of the last node 9.
\<close>

theorem C10_orphan_node:
  "MerkleTree toy_hash 1 2 leaves6 = Inr tree6 \<and> (8::nat) \<noteq> len tree6 - 1 \<and> 8 < len tree6 \<and>
   m_out_edges (Tree tree6 ! 8) = [] \<and> parent tree6 8 = Inl Out_of_bounds \<and>
   children 2 tree6 8 = Inr [Some 4, Some 5] \<and> children 2 tree6 9 = Inr [Some 6, Some 7]"
  unfolding tree6_value by (simp add: tree6_def parent_def children_def)

end
